theory Spec2Isabelle
  imports Complex_Main
begin

section \<open>Python values and errors\<close>

text \<open>
  The exceptions the modelled code can raise. A function that may raise returns
  \<open>error + 'a\<close>, with \<open>Inl\<close> for the exception.
\<close>

datatype error = KeyError | IndexError | ValueError | TypeError

section \<open>NFL box score: the win-probability columns of \<open>BoxScore.pbp\<close>\<close>

text \<open>
  \<open>src/sportsref/nfl/boxscores.py\<close>, lines 307 to 338. The data frame is modelled by the
  columns these lines read and write, each a list indexed by the play number
  \<open>0 .. n - 1\<close> (the default integer index of the parsed table). A cell of a float
  column is \<open>real option\<close>: \<open>None\<close> is NaN, and arithmetic with NaN gives NaN.

  The code computes with IEEE doubles, the model with exact reals. One subtraction of
  two stored values names the same cell in both, so a statement of the form
  \<open>c = cell_sub a b\<close> reads the same for the code. A sum of several cells is rounded
  in the code: \<open>col_sum\<close> is the code's sum only where every addition and subtraction
  is exact, as it is when the values are whole numbers between 0 and 100.
\<close>

type_synonym cell = "real option"

fun cell_sub :: "cell \<Rightarrow> cell \<Rightarrow> cell" where
  "cell_sub (Some a) (Some b) = Some (a - b)"
| "cell_sub _ _ = None"

fun cell_add :: "cell \<Rightarrow> cell \<Rightarrow> cell" where
  "cell_add (Some a) (Some b) = Some (a + b)"
| "cell_add _ _ = None"

text \<open>The sum of a column, added up from 0 in row order; a NaN makes the sum NaN.\<close>

definition col_sum :: "cell list \<Rightarrow> cell" where
  "col_sum xs = foldl cell_add (Some 0) xs"

record frame =
  home_wp :: "cell list"
  secsElapsed :: "int list"
  isTimeout :: "bool list"

record frame_wpa = frame +
  home_wpa :: "cell list"

text \<open>\<open>Series.diff()\<close>: NaN first, then each value minus the one before it.\<close>

definition diff :: "cell list \<Rightarrow> cell list" where
  "diff xs = (case xs of [] \<Rightarrow> [] | _ # t \<Rightarrow> None # map2 cell_sub t xs)"

text \<open>\<open>Series.shift(1)\<close>: NaN first, then the values moved down by one row.\<close>

definition shift1 :: "cell list \<Rightarrow> cell list" where
  "shift1 xs = (case xs of [] \<Rightarrow> [] | _ # _ \<Rightarrow> None # butlast xs)"

text \<open>\<open>fillna(method='ffill')\<close>: a NaN takes the last value before it that is not NaN.\<close>

fun ffill_from :: "cell \<Rightarrow> cell list \<Rightarrow> cell list" where
  "ffill_from prev [] = []"
| "ffill_from prev (None # xs) = prev # ffill_from prev xs"
| "ffill_from prev (Some v # xs) = Some v # ffill_from (Some v) xs"

definition ffill :: "cell list \<Rightarrow> cell list" where
  "ffill xs = ffill_from None xs"

text \<open>\<open>df.ix[i, col]\<close> as a read: a label that is not in the index raises KeyError.\<close>

definition ix :: "'a list \<Rightarrow> nat \<Rightarrow> error + 'a" where
  "ix col i = (if i < length col then Inr (col ! i) else Inl KeyError)"

text \<open>\<open>BoxScore.winner\<close> (lines 96 to 106): the winner's team ID, NaN (\<open>None\<close>) for a tie.\<close>

definition winner :: "int \<Rightarrow> int \<Rightarrow> string \<Rightarrow> string \<Rightarrow> string option" where
  "winner hmScore awScore home away =
     (if hmScore > awScore then Some home
      else if hmScore < awScore then Some away
      else None)"

text \<open>Line 328: \<open>50. if pd.isnull(winner) else (winner == self.home()) * 100.\<close>\<close>

definition finalWP :: "string option \<Rightarrow> string \<Rightarrow> real" where
  "finalWP w home = (case w of None \<Rightarrow> 50 | Some t \<Rightarrow> (if t = home then 100 else 0))"

text \<open>
  Lines 317 to 322, the loop over the rows with \<open>secsElapsed == 0\<close>. The state is the
  pair of columns \<open>(home_wp, home_wpa)\<close>.
\<close>

definition firstPlaysOfGame :: "int list \<Rightarrow> nat list" where
  "firstPlaysOfGame secs = filter (\<lambda>i. secs ! i = 0) [0..<length secs]"

fun fix_first :: "real \<Rightarrow> nat list \<Rightarrow> cell list \<times> cell list \<Rightarrow> error + (cell list \<times> cell list)" where
  "fix_first initwp [] st = Inr st"
| "fix_first initwp (i # rest) (wp, wpa) =
     (let wp1 = wp[i := Some initwp] in
      case ix wp1 (i + 1) of
        Inl e \<Rightarrow> Inl e
      | Inr nxt \<Rightarrow> fix_first initwp rest (wp1, wpa[i := cell_sub nxt (Some initwp)]))"

text \<open>Lines 331 to 338, the loop over the rows with \<open>isTimeout\<close>.\<close>

definition timeouts :: "bool list \<Rightarrow> nat list" where
  "timeouts tos = filter (\<lambda>i. tos ! i) [0..<length tos]"

fun fix_timeouts :: "real \<Rightarrow> cell list \<Rightarrow> nat list \<Rightarrow> cell list \<Rightarrow> error + cell list" where
  "fix_timeouts fin wp [] wpa = Inr wpa"
| "fix_timeouts fin wp (t # rest) wpa =
     (let wpa1 = wpa[t := Some 0] in
      case (if t + 2 < length wp
            then Inr (cell_sub (wp ! (t + 2)) (wp ! (t + 1)))
            else (case ix wp (t + 1) of
                    Inl e \<Rightarrow> Inl e
                  | Inr v \<Rightarrow> Inr (cell_sub (Some fin) v))) of
        Inl e \<Rightarrow> Inl e
      | Inr w \<Rightarrow> fix_timeouts fin wp rest (wpa1[t + 1 := w]))"

text \<open>
  The whole pass. \<open>initwp\<close> is the value of \<open>initialWinProb(self.line())\<close>, a function
  that is not part of these sources and is taken to return a number; \<open>w\<close> is the value
  of \<open>self.winner()\<close> and \<open>home\<close> that of \<open>self.home()\<close>.

  On a table with no row the code raises and so does the model, but not with the same
  exception: line 313 (\<open>df.ix[0, [...]] = 0\<close>, which writes the score columns only) first
  enlarges the empty frame by a row 0 and a later line fails, while the model, which
  leaves the score columns out, raises the IndexError of \<open>df.iloc[-1]\<close>. Every property
  below is about a pass that returns or about a table of at least two rows.
\<close>

definition pbp :: "real \<Rightarrow> string option \<Rightarrow> string \<Rightarrow> frame \<Rightarrow> error + frame_wpa" where
  "pbp initwp w home df =
     (let wpa0 = diff (home_wp df);
          wp0 = ffill (shift1 (home_wp df))
      in case fix_first initwp (firstPlaysOfGame (secsElapsed df)) (wp0, wpa0) of
           Inl e \<Rightarrow> Inl e
         | Inr (wp1, wpa1) \<Rightarrow>
             if length wp1 = 0 then Inl IndexError
             else
               let lastPlayIdx = length wp1 - 1;
                   lastPlayWP = wp1 ! lastPlayIdx;
                   fin = finalWP w home;
                   wpa2 = wpa1[lastPlayIdx := cell_sub (Some fin) lastPlayWP]
               in case fix_timeouts fin wp1 (timeouts (isTimeout df)) wpa2 of
                    Inl e \<Rightarrow> Inl e
                  | Inr wpa3 \<Rightarrow>
                      Inr \<lparr>home_wp = wp1, secsElapsed = secsElapsed df,
                           isTimeout = isTimeout df, home_wpa = wpa3\<rparr>)"

text \<open>The columns of a frame have one length.\<close>

definition wf_frame :: "frame \<Rightarrow> bool" where
  "wf_frame df \<longleftrightarrow>
     length (secsElapsed df) = length (home_wp df) \<and>
     length (isTimeout df) = length (home_wp df)"

text \<open>The lagged, forward-filled series that the pass reads as \<open>home_wp\<close>.\<close>

definition lagged :: "frame \<Rightarrow> cell list" where
  "lagged df = ffill (shift1 (home_wp df))"

definition game :: "real list \<Rightarrow> int list \<Rightarrow> bool list \<Rightarrow> frame" where
  "game raw secs tos = \<lparr>home_wp = map Some raw, secsElapsed = secs, isTimeout = tos\<rparr>"

text \<open>
  A win probability that is a whole number of percent, and a game whose pregame value
  and model values all are. On such a game every difference the pass forms, and every
  partial sum of them, is a whole number far smaller in magnitude than 2 ^ 53, which
  doubles hold exactly.
\<close>

definition whole_wp :: "real \<Rightarrow> bool" where
  "whole_wp x \<longleftrightarrow> 0 \<le> x \<and> x \<le> 100 \<and> of_int \<lfloor>x\<rfloor> = x"

definition whole_game :: "real \<Rightarrow> frame \<Rightarrow> bool" where
  "whole_game initwp df \<longleftrightarrow>
     whole_wp initwp \<and>
     list_all (\<lambda>c. case c of None \<Rightarrow> True | Some x \<Rightarrow> whole_wp x) (home_wp df)"

section \<open>Regular expressions as \<open>re.match\<close> runs them\<close>

text \<open>
  \<open>src/sportsref/nba/pbp.py\<close> matches the play description against eighteen patterns
  with \<open>re.match(pattern, details, re.IGNORECASE)\<close>. The patterns use literals,
  repetitions of a character class (\<open>\w{0,7}\<close>, \<open>\d{2}\<close>, \<open>\d+\<close>, \<open>[^;]+\<close>, \<open>.*\<close>, \<open>.*?\<close>),
  concatenation, alternation, optional parts and named groups. \<open>re.match\<close> is a
  backtracking matcher anchored at the start of the string: it returns the first
  match in priority order. The model lists all matches in that order; each is the
  rest of the string with the groups captured so far.

  The description is a byte string: \<open>\w\<close> is \<open>[a-zA-Z0-9_]\<close>, \<open>\d\<close> is \<open>[0-9]\<close>, \<open>.\<close> is
  any character but a newline, and IGNORECASE compares literals after mapping
  \<open>A-Z\<close> to \<open>a-z\<close>.
\<close>

datatype cclass = Word | Digit | Dot | NotSemicolon

definition digit_chars :: string where
  "digit_chars = ''0123456789''"

definition upper_chars :: string where
  "upper_chars = ''ABCDEFGHIJKLMNOPQRSTUVWXYZ''"

definition lower_chars :: string where
  "lower_chars = ''abcdefghijklmnopqrstuvwxyz''"

definition is_digit :: "char \<Rightarrow> bool" where
  "is_digit c \<longleftrightarrow> c \<in> set digit_chars"

fun cc_mem :: "cclass \<Rightarrow> char \<Rightarrow> bool" where
  "cc_mem Word c = (c \<in> set lower_chars \<or> c \<in> set upper_chars \<or> is_digit c \<or> c = CHR ''_'')"
| "cc_mem Digit c = is_digit c"
| "cc_mem Dot c = (c \<noteq> CHR 0x0A)"
| "cc_mem NotSemicolon c = (c \<noteq> CHR '';'')"

definition lower :: "char \<Rightarrow> char" where
  "lower c = (case map_of (zip upper_chars lower_chars) c of None \<Rightarrow> c | Some d \<Rightarrow> d)"

fun ci_prefix :: "string \<Rightarrow> string \<Rightarrow> bool" where
  "ci_prefix [] s = True"
| "ci_prefix (x # xs) [] = False"
| "ci_prefix (x # xs) (c # cs) = (lower x = lower c \<and> ci_prefix xs cs)"

text \<open>
  \<open>Rep c lo hi greedy\<close> is a repetition of the class \<open>c\<close>, at least \<open>lo\<close> and at most
  \<open>hi\<close> times (\<open>None\<close>: no bound), greedy or lazy. \<open>Opt\<close> is the greedy \<open>(?:...)?\<close> and
  \<open>Grp\<close> the named group \<open>(?P<name>...)\<close>.
\<close>

datatype rx =
    Lit string
  | Rep cclass nat "nat option" bool
  | Seq rx rx
  | Alt rx rx
  | Opt rx
  | Grp string rx

type_synonym env = "string \<rightharpoonup> string"

fun rmatch :: "rx \<Rightarrow> string \<times> env \<Rightarrow> (string \<times> env) list" where
  "rmatch (Lit l) (s, e) = (if ci_prefix l s then [(drop (length l) s, e)] else [])"
| "rmatch (Rep c lo hi greedy) (s, e) =
     (let avail = length (takeWhile (cc_mem c) s);
          m = (case hi of None \<Rightarrow> avail | Some h \<Rightarrow> min h avail);
          counts = (if greedy then rev [lo..<Suc m] else [lo..<Suc m])
      in map (\<lambda>k. (drop k s, e)) counts)"
| "rmatch (Seq a b) se = concat (map (rmatch b) (rmatch a se))"
| "rmatch (Alt a b) se = rmatch a se @ rmatch b se"
| "rmatch (Opt a) se = rmatch a se @ [se]"
| "rmatch (Grp n a) (s, e) =
     map (\<lambda>(s', e'). (s', e'(n \<mapsto> take (length s - length s') s))) (rmatch a (s, e))"

text \<open>\<open>re.match\<close>: the captures of the first match, \<open>None\<close> when there is none.\<close>

definition rx_match :: "rx \<Rightarrow> string \<Rightarrow> env option" where
  "rx_match r s = (case rmatch r (s, Map.empty) of [] \<Rightarrow> None | (_, e) # _ \<Rightarrow> Some e)"

fun groups :: "rx \<Rightarrow> string list" where
  "groups (Lit l) = []"
| "groups (Rep c lo hi greedy) = []"
| "groups (Seq a b) = groups a @ groups b"
| "groups (Alt a b) = groups a @ groups b"
| "groups (Opt a) = groups a"
| "groups (Grp n a) = n # groups a"

text \<open>For the proofs: the bodies of the groups named \<open>k\<close>, and what they can capture.\<close>

fun grp_bodies :: "rx \<Rightarrow> string \<Rightarrow> rx list" where
  "grp_bodies (Lit l) k = []"
| "grp_bodies (Rep c lo hi g) k = []"
| "grp_bodies (Seq a b) k = grp_bodies a k @ grp_bodies b k"
| "grp_bodies (Alt a b) k = grp_bodies a k @ grp_bodies b k"
| "grp_bodies (Opt a) k = grp_bodies a k"
| "grp_bodies (Grp n a) k = (if n = k then [a] else []) @ grp_bodies a k"

definition captured_by :: "rx list \<Rightarrow> string option \<Rightarrow> bool" where
  "captured_by bodies v \<longleftrightarrow>
     (\<exists>a\<in>set bodies. \<exists>s1 e1 s2 e2.
        (s2, e2) \<in> set (rmatch a (s1, e1)) \<and> v = Some (take (length s1 - length s2) s1))"

text \<open>The concatenation of a list of patterns.\<close>

fun seqs :: "rx list \<Rightarrow> rx" where
  "seqs [] = Lit []"
| "seqs [r] = r"
| "seqs (r # rs) = Seq r (seqs rs)"

section \<open>NBA play-by-play: \<open>parsePlay\<close>\<close>

text \<open>
  The values a play dictionary holds, and the description argument itself, which the
  table extractor may hand over as a string or as a NaN.
\<close>

datatype val = VNone | VNaN | VBool bool | VInt int | VStr string

type_synonym pdict = "string \<rightharpoonup> val"

definition ebind :: "error + 'a \<Rightarrow> ('a \<Rightarrow> error + 'b) \<Rightarrow> error + 'b" where
  "ebind x f = (case x of Inl e \<Rightarrow> Inl e | Inr v \<Rightarrow> f v)"

text \<open>\<open>p[k]\<close> raises KeyError when the key is absent; \<open>p.get(k)\<close> gives \<open>None\<close> then.\<close>

definition getitem :: "pdict \<Rightarrow> string \<Rightarrow> error + val" where
  "getitem p k = (case p k of None \<Rightarrow> Inl KeyError | Some v \<Rightarrow> Inr v)"

definition get_or_none :: "pdict \<Rightarrow> string \<Rightarrow> val" where
  "get_or_none p k = (case p k of None \<Rightarrow> VNone | Some v \<Rightarrow> v)"

text \<open>
  \<open>m.groupdict()\<close>: every named group of the pattern is a key; a group that took no
  part in the match maps to \<open>None\<close>.
\<close>

definition capv :: "env \<Rightarrow> string \<Rightarrow> val" where
  "capv e k = (case e k of None \<Rightarrow> VNone | Some w \<Rightarrow> VStr w)"

definition groupdict :: "rx \<Rightarrow> env \<Rightarrow> pdict" where
  "groupdict r e = (\<lambda>k. if k \<in> set (groups r) then Some (capv e k) else None)"

definition notnull :: "val \<Rightarrow> bool" where
  "notnull v \<longleftrightarrow> v \<noteq> VNone \<and> v \<noteq> VNaN"

fun truthy :: "val \<Rightarrow> bool" where
  "truthy VNone = False"
| "truthy VNaN = True"
| "truthy (VBool b) = b"
| "truthy (VInt n) = (n \<noteq> 0)"
| "truthy (VStr s) = (s \<noteq> [])"

definition digit_val :: "char \<Rightarrow> int" where
  "digit_val c = int (length (takeWhile (\<lambda>d. d \<noteq> c) digit_chars))"

definition digits_val :: "string \<Rightarrow> int" where
  "digits_val s = foldl (\<lambda>a c. 10 * a + digit_val c) 0 s"

text \<open>
  \<open>int(x)\<close>. A string of decimal digits gives its value. Python also accepts a sign and
  surrounding blanks; the model raises ValueError for every string that is not made of
  digits only, which is more often than Python does.
\<close>

fun py_int :: "val \<Rightarrow> error + int" where
  "py_int (VStr s) = (if s \<noteq> [] \<and> list_all is_digit s then Inr (digits_val s) else Inl ValueError)"
| "py_int (VInt n) = Inr n"
| "py_int (VBool b) = Inr (if b then 1 else 0)"
| "py_int VNaN = Inl ValueError"
| "py_int VNone = Inl TypeError"

text \<open>The statement \<open>p[k] = p[k] == lit\<close>.\<close>

definition flag_eq :: "pdict \<Rightarrow> string \<Rightarrow> string \<Rightarrow> error + pdict" where
  "flag_eq p k lit = ebind (getitem p k) (\<lambda>v. Inr (p(k \<mapsto> VBool (v = VStr lit))))"

subsection \<open>The patterns\<close>

definition playerRE :: rx where
  "playerRE = Seq (Rep Word 0 (Some 7) True) (Rep Digit 2 (Some 2) True)"

definition drawnRE :: rx where
  "drawnRE = Opt (seqs [Lit '' (drawn by '', Grp ''drewFoul'' playerRE, Lit '')''])"

definition distRE :: rx where
  "distRE = Seq (Lit '' '')
     (Alt (seqs [Lit ''from '', Grp ''shotDist'' (Rep Digit 1 None True), Lit '' ft''])
          (Lit ''at rim''))"

definition assistRE :: rx where
  "assistRE = seqs [Lit '' (assist by '', Grp ''assister'' playerRE, Lit '')'']"

definition blockRE :: rx where
  "blockRE = seqs [Lit '' (block by '', Grp ''blocker'' playerRE, Lit '')'']"

definition shotRE :: rx where
  "shotRE = seqs
     [Grp ''shooter'' playerRE, Lit '' '', Grp ''isFGM'' (Alt (Lit ''makes'') (Lit ''misses'')),
      Lit '' '', Grp ''isThree'' (Alt (Lit ''2'') (Lit ''3'')), Lit ''-pt shot'',
      distRE, Opt (Alt assistRE blockRE)]"

definition jumpRE :: rx where
  "jumpRE = seqs
     [Lit ''Jump ball: '', Grp ''awayJumper'' playerRE, Lit '' vs. '',
      Grp ''homeJumper'' playerRE,
      Opt (seqs [Lit '' ('', Grp ''gainsPos'' playerRE, Lit '' gains possession)''])]"

definition rebRE :: rx where
  "rebRE = seqs
     [Grp ''isOReb'' (Alt (Lit ''Offensive'') (Lit ''Defensive'')), Lit '' rebound by '',
      Grp ''rebounder'' (Alt playerRE (Lit ''Team''))]"

definition shotFoulRE :: rx where
  "shotFoulRE = seqs
     [Lit ''Shooting'', Opt (Grp ''isBlockFoul'' (Lit '' block'')), Lit '' foul by '',
      Grp ''fouler'' playerRE, Lit '' (drawn by '', Grp ''drewFoul'' playerRE, Lit '')'']"

definition ftRE :: rx where
  "ftRE = seqs
     [Grp ''ftShooter'' playerRE, Lit '' '', Grp ''isFTM'' (Alt (Lit ''makes'') (Lit ''misses'')),
      Lit '' '', Opt (Grp ''isTechFT'' (Lit ''technical '')),
      Opt (Grp ''isFlagFT'' (Lit ''flagrant '')),
      Opt (Grp ''isClearPathFT'' (Lit ''clear path '')), Lit ''free throw'',
      Opt (seqs [Lit '' '', Grp ''ftNum'' (Rep Digit 1 None True), Lit '' of '',
                 Grp ''numAtt'' (Rep Digit 1 None True)])]"

definition subRE :: rx where
  "subRE = seqs
     [Grp ''subIn'' playerRE, Lit '' enters the game for '', Grp ''subOut'' playerRE]"

definition toReasons :: rx where
  "toReasons =
     Alt (Grp ''shotClockViol'' (Lit ''shot clock''))
    (Alt (Grp ''isTravel'' (Lit ''traveling''))
    (Alt (Grp ''isOffFoul'' (Lit ''offensive foul''))
         (Seq (Grp ''stealType'' (Rep NotSemicolon 1 None True))
              (Opt (seqs [Lit ''; steal by '', Grp ''stealer'' playerRE])))))"

definition toRE :: rx where
  "toRE = seqs
     [Lit ''Turnover by '', Grp ''turnoverBy'' (Alt playerRE (Lit ''Team'')), Lit '' ('',
      toReasons, Lit '')'']"

definition offFoulRE :: rx where
  "offFoulRE = seqs
     [Lit ''Offensive'', Opt (Grp ''isCharge'' (Lit '' charge'')), Lit '' foul by '',
      Grp ''turnoverBy'' playerRE, drawnRE]"

definition foulRE :: rx where
  "foulRE = seqs
     [Lit ''Personal '', Opt (Grp ''isTakeFoul'' (Lit ''take '')),
      Opt (Grp ''isBlockFoul'' (Lit ''block '')), Lit ''foul by'', Lit '' '',
      Grp ''fouler'' playerRE, drawnRE]"

definition looseBallRE :: rx where
  "looseBallRE = seqs [Lit ''Loose ball foul by '', Grp ''fouler'' playerRE, drawnRE]"

definition awayFromBallRE :: rx where
  "awayFromBallRE = seqs [Lit ''Away from play foul by '', Grp ''fouler'' playerRE, drawnRE]"

definition inboundRE :: rx where
  "inboundRE = seqs [Lit ''Inbound foul by '', Grp ''fouler'' playerRE, drawnRE]"

definition flagrantRE :: rx where
  "flagrantRE = seqs
     [Lit ''Flagrant foul type '', Grp ''flagType'' (Alt (Lit ''1'') (Lit ''2'')), Lit '' by '',
      Grp ''fouler'' playerRE, drawnRE]"

definition clearPathRE :: rx where
  "clearPathRE = seqs [Lit ''Clear path foul by '', Grp ''fouler'' playerRE, drawnRE]"

definition timeoutRE :: rx where
  "timeoutRE = seqs
     [Grp ''timeoutTeam'' (Rep Dot 0 None False), Lit '' '', Opt (Lit ''full ''), Lit ''timeout'']"

definition techRE :: rx where
  "techRE = seqs [Lit ''Technical foul by '', Grp ''fouler'' (Alt playerRE (Lit ''Team''))]"

definition def3TechRE :: rx where
  "def3TechRE = seqs [Lit ''Def 3 sec tech foul by '', Grp ''fouler'' playerRE]"

definition violRE :: rx where
  "violRE = seqs
     [Lit ''Violation by '', Grp ''violator'' (Alt playerRE (Lit ''Team'')), Lit '' ('',
      Grp ''violType'' (Rep Dot 0 None True), Lit '')'']"

subsection \<open>The branches, one for each pattern\<close>

text \<open>
  Each branch takes the dictionary \<open>p\<close> built so far, the captures \<open>m\<close> of its pattern
  and the arguments \<open>hm\<close>, \<open>aw\<close>, \<open>is_hm\<close>, and returns what \<open>parsePlay\<close> returns there:
  an exception, \<open>None\<close>, or the dictionary.
\<close>

definition parse_fga :: "pdict \<Rightarrow> env \<Rightarrow> val \<Rightarrow> val \<Rightarrow> bool \<Rightarrow> error + pdict option" where
  "parse_fga p m hm aw is_hm =
     (let p1 = p(''isFGA'' \<mapsto> VBool True) ++ groupdict shotRE m in
      ebind (getitem p1 ''shotDist'') (\<lambda>d.
      ebind (if d \<noteq> VNone then getitem p1 ''shotDist'' else Inr (VInt 0)) (\<lambda>d1.
      let p2 = p1(''shotDist'' \<mapsto> d1) in
      ebind (getitem p2 ''shotDist'') (\<lambda>d2.
      ebind (py_int d2) (\<lambda>n.
      let p3 = p2(''shotDist'' \<mapsto> VInt n) in
      ebind (flag_eq p3 ''isFGM'' ''makes'') (\<lambda>p4.
      ebind (flag_eq p4 ''isThree'' ''3'') (\<lambda>p5.
      let p6 = p5(''isAssist'' \<mapsto> VBool (notnull (get_or_none p5 ''assister'')));
          p7 = p6(''isBlock'' \<mapsto> VBool (notnull (get_or_none p6 ''blocker'')));
          p8 = p7(''team'' \<mapsto> (if is_hm then hm else aw));
          p9 = p8(''opp'' \<mapsto> (if is_hm then aw else hm))
      in Inr (Some p9))))))))"

definition parse_jump :: "pdict \<Rightarrow> env \<Rightarrow> error + pdict option" where
  "parse_jump p m = Inr (Some (p(''isJumpBall'' \<mapsto> VBool True) ++ groupdict jumpRE m))"

definition parse_reb :: "pdict \<Rightarrow> env \<Rightarrow> val \<Rightarrow> val \<Rightarrow> bool \<Rightarrow> error + pdict option" where
  "parse_reb p m hm aw is_hm =
     (let p1 = p(''isReb'' \<mapsto> VBool True) ++ groupdict rebRE m in
      ebind (flag_eq p1 ''isOReb'' ''Offensive'') (\<lambda>p2.
      ebind (getitem p2 ''isOReb'') (\<lambda>ov.
      let p3 = p2(''isDReb'' \<mapsto> VBool (\<not> truthy ov));
          p4 = p3(''rebTeam'' \<mapsto> (if is_hm then hm else aw));
          other = (if is_hm then aw else hm)
      in
      ebind (getitem p4 ''isOReb'') (\<lambda>o1.
      ebind (if truthy o1 then getitem p4 ''rebTeam'' else Inr other) (\<lambda>t.
      let p5 = p4(''team'' \<mapsto> t) in
      ebind (getitem p5 ''isDReb'') (\<lambda>d.
      ebind (if truthy d then getitem p5 ''rebTeam'' else Inr other) (\<lambda>t1.
      Inr (Some (p5(''opp'' \<mapsto> t1))))))))))"

definition parse_shotFoul :: "pdict \<Rightarrow> env \<Rightarrow> val \<Rightarrow> val \<Rightarrow> bool \<Rightarrow> error + pdict option" where
  "parse_shotFoul p m hm aw is_hm =
     (let p1 = p(''isShotFoul'' \<mapsto> VBool True) ++ groupdict shotFoulRE m in
      ebind (flag_eq p1 ''isBlockFoul'' '' block'') (\<lambda>p2.
      let p3 = p2(''team'' \<mapsto> (if is_hm then hm else aw));
          p4 = p3(''opp'' \<mapsto> (if is_hm then aw else hm))
      in Inr (Some p4)))"

definition parse_ft :: "pdict \<Rightarrow> env \<Rightarrow> val \<Rightarrow> val \<Rightarrow> bool \<Rightarrow> error + pdict option" where
  "parse_ft p m hm aw is_hm =
     (let p1 = p(''isFTA'' \<mapsto> VBool True) ++ groupdict ftRE m in
      ebind (flag_eq p1 ''isTechFT'' ''technical '') (\<lambda>p2.
      ebind (flag_eq p2 ''isFlagFT'' ''flagrant '') (\<lambda>p3.
      ebind (flag_eq p3 ''isClearPathFT'' ''clear path '') (\<lambda>p4.
      let p5 = p4(''team'' \<mapsto> (if is_hm then hm else aw));
          p6 = p5(''opp'' \<mapsto> (if is_hm then aw else hm))
      in Inr (Some p6)))))"

definition parse_sub :: "pdict \<Rightarrow> env \<Rightarrow> val \<Rightarrow> val \<Rightarrow> bool \<Rightarrow> error + pdict option" where
  "parse_sub p m hm aw is_hm =
     (let p1 = p(''isSub'' \<mapsto> VBool True) ++ groupdict subRE m in
      Inr (Some (p1(''subTeam'' \<mapsto> (if is_hm then hm else aw)))))"

definition parse_to :: "pdict \<Rightarrow> env \<Rightarrow> val \<Rightarrow> val \<Rightarrow> bool \<Rightarrow> error + pdict option" where
  "parse_to p m hm aw is_hm =
     (let p1 = p(''isTO'' \<mapsto> VBool True) ++ groupdict toRE m in
      ebind (getitem p1 ''isOffFoul'') (\<lambda>f.
      if truthy f then Inr None
      else
        ebind (flag_eq p1 ''isTravel'' ''traveling'') (\<lambda>p2.
        let p3 = p2(''team'' \<mapsto> (if is_hm then hm else aw));
            p4 = p3(''opp'' \<mapsto> (if is_hm then aw else hm))
        in Inr (Some p4))))"

definition parse_offFoul :: "pdict \<Rightarrow> env \<Rightarrow> val \<Rightarrow> val \<Rightarrow> bool \<Rightarrow> error + pdict option" where
  "parse_offFoul p m hm aw is_hm =
     (let p1 = p(''isFoul'' \<mapsto> VBool True, ''isOffFoul'' \<mapsto> VBool True, ''isTO'' \<mapsto> VBool True)
                 ++ groupdict offFoulRE m in
      ebind (flag_eq p1 ''isCharge'' '' charge'') (\<lambda>p2.
      ebind (getitem p2 ''turnoverBy'') (\<lambda>t.
      let p3 = p2(''fouler'' \<mapsto> t);
          p4 = p3(''team'' \<mapsto> (if is_hm then hm else aw));
          p5 = p4(''opp'' \<mapsto> (if is_hm then aw else hm))
      in
      ebind (getitem p5 ''team'') (\<lambda>tm.
      Inr (Some (p5(''foulTeam'' \<mapsto> tm)))))))"

definition parse_foul :: "pdict \<Rightarrow> env \<Rightarrow> val \<Rightarrow> val \<Rightarrow> bool \<Rightarrow> error + pdict option" where
  "parse_foul p m hm aw is_hm =
     (let p1 = p(''isFoul'' \<mapsto> VBool True) ++ groupdict foulRE m in
      ebind (flag_eq p1 ''isTakeFoul'' ''take '') (\<lambda>p2.
      ebind (flag_eq p2 ''isBlockFoul'' ''block '') (\<lambda>p3.
      let p4 = p3(''team'' \<mapsto> (if is_hm then aw else hm));
          p5 = p4(''opp'' \<mapsto> (if is_hm then hm else aw))
      in
      ebind (getitem p5 ''opp'') (\<lambda>ov.
      Inr (Some (p5(''foulTeam'' \<mapsto> ov)))))))"

definition parse_looseBall :: "pdict \<Rightarrow> env \<Rightarrow> val \<Rightarrow> val \<Rightarrow> bool \<Rightarrow> error + pdict option" where
  "parse_looseBall p m hm aw is_hm =
     (let p1 = p(''isFoul'' \<mapsto> VBool True, ''isLooseBallFoul'' \<mapsto> VBool True)
                 ++ groupdict looseBallRE m in
      Inr (Some (p1(''foulTeam'' \<mapsto> (if is_hm then hm else aw)))))"

text \<open>
  The away-from-play, inbound and clear-path branches differ only in the flag they set
  and in their pattern.
\<close>

definition parse_oppFoul :: "string \<Rightarrow> rx \<Rightarrow> pdict \<Rightarrow> env \<Rightarrow> val \<Rightarrow> val \<Rightarrow> bool \<Rightarrow> error + pdict option" where
  "parse_oppFoul flag r p m hm aw is_hm =
     (let p1 = p(''isFoul'' \<mapsto> VBool True, flag \<mapsto> VBool True) ++ groupdict r m;
          p2 = p1(''team'' \<mapsto> (if is_hm then aw else hm));
          p3 = p2(''opp'' \<mapsto> (if is_hm then hm else aw))
      in
      ebind (getitem p3 ''opp'') (\<lambda>ov.
      Inr (Some (p3(''foulTeam'' \<mapsto> ov)))))"

definition parse_flagrant :: "pdict \<Rightarrow> env \<Rightarrow> val \<Rightarrow> val \<Rightarrow> bool \<Rightarrow> error + pdict option" where
  "parse_flagrant p m hm aw is_hm =
     (let p1 = p(''isFoul'' \<mapsto> VBool True, ''isFlagrant'' \<mapsto> VBool True)
                 ++ groupdict flagrantRE m in
      Inr (Some (p1(''foulTeam'' \<mapsto> (if is_hm then hm else aw)))))"

text \<open>
  \<open>teamIDs\<close> is the dictionary that \<open>sportsref.nba.teams.teamIDs()\<close> returns; that
  function is not part of these sources and is taken to return.
\<close>

definition parse_timeout :: "(val \<rightharpoonup> val) \<Rightarrow> pdict \<Rightarrow> env \<Rightarrow> val \<Rightarrow> val \<Rightarrow> bool \<Rightarrow> error + pdict option" where
  "parse_timeout teamIDs p m hm aw is_hm =
     (let p1 = p(''isTimeout'' \<mapsto> VBool True) ++ groupdict timeoutRE m;
          p2 = p1(''team'' \<mapsto> (if is_hm then hm else aw));
          p3 = p2(''opp'' \<mapsto> (if is_hm then aw else hm))
      in
      ebind (getitem p3 ''timeoutTeam'') (\<lambda>t.
      let isOfficialTO = (t = VStr ''Official'') in
      ebind (if isOfficialTO then Inr (VStr ''Official'')
             else ebind (getitem p3 ''team'') (\<lambda>k.
                  ebind (getitem p3 ''team'') (\<lambda>dflt.
                  Inr (case teamIDs k of None \<Rightarrow> dflt | Some v \<Rightarrow> v)))) (\<lambda>v.
      Inr (Some (p3(''timeoutTeam'' \<mapsto> v))))))"

definition parse_tech :: "pdict \<Rightarrow> env \<Rightarrow> val \<Rightarrow> val \<Rightarrow> bool \<Rightarrow> error + pdict option" where
  "parse_tech p m hm aw is_hm =
     (let p1 = p(''isFoul'' \<mapsto> VBool True, ''isTechFoul'' \<mapsto> VBool True)
                 ++ groupdict techRE m in
      Inr (Some (p1(''foulTeam'' \<mapsto> (if is_hm then hm else aw)))))"

definition parse_def3Tech :: "pdict \<Rightarrow> env \<Rightarrow> val \<Rightarrow> val \<Rightarrow> bool \<Rightarrow> error + pdict option" where
  "parse_def3Tech p m hm aw is_hm =
     (let p1 = p(''isFoul'' \<mapsto> VBool True, ''isTechFoul'' \<mapsto> VBool True,
                 ''isDefThreeSecs'' \<mapsto> VBool True) ++ groupdict def3TechRE m in
      Inr (Some (p1(''foulTeam'' \<mapsto> (if is_hm then hm else aw)))))"

definition parse_viol :: "pdict \<Rightarrow> env \<Rightarrow> val \<Rightarrow> val \<Rightarrow> bool \<Rightarrow> error + pdict option" where
  "parse_viol p m hm aw is_hm =
     (let p1 = p(''isViolation'' \<mapsto> VBool True) ++ groupdict violRE m in
      Inr (Some (p1(''violTeam'' \<mapsto> (if is_hm then hm else aw)))))"

subsection \<open>\<open>parsePlay\<close>\<close>

text \<open>
  The dictionary of lines 23 to 27, and the cascade: the first pattern that matches
  decides. The result is \<open>Inl\<close> for an exception, \<open>Inr None\<close> for Python's \<open>None\<close> and
  \<open>Inr (Some p)\<close> for a dictionary. The \<open>print\<close> of line 272 writes to standard output
  and does not change the result; the \<open>memoized\<close> decorator caches the result of the
  call and is not modelled.
\<close>

definition base_dict :: "val \<Rightarrow> val \<Rightarrow> val \<Rightarrow> bool \<Rightarrow> pdict" where
  "base_dict details hm aw is_hm =
     [''detail'' \<mapsto> details, ''home'' \<mapsto> hm, ''away'' \<mapsto> aw, ''isHomePlay'' \<mapsto> VBool is_hm]"

text \<open>
  One step of the cascade, \<open>m = re.match(r, details, re.I)\<close> followed by \<open>if m:\<close> with
  a branch that returns: the branch when the pattern matches, the rest of the function
  otherwise.
\<close>

definition try_rule :: "rx \<Rightarrow> string \<Rightarrow> (env \<Rightarrow> 'a) \<Rightarrow> 'a \<Rightarrow> 'a" where
  "try_rule r s branch rest = (case rx_match r s of Some m \<Rightarrow> branch m | None \<Rightarrow> rest)"

definition parsePlay :: "(val \<rightharpoonup> val) \<Rightarrow> val \<Rightarrow> val \<Rightarrow> val \<Rightarrow> bool \<Rightarrow> error + pdict option" where
  "parsePlay teamIDs details hm aw is_hm =
     (case details of
        VStr s \<Rightarrow>
          (let p = base_dict details hm aw is_hm in
           try_rule shotRE s (\<lambda>m. parse_fga p m hm aw is_hm)
          (try_rule jumpRE s (\<lambda>m. parse_jump p m)
          (try_rule rebRE s (\<lambda>m. parse_reb p m hm aw is_hm)
          (try_rule shotFoulRE s (\<lambda>m. parse_shotFoul p m hm aw is_hm)
          (try_rule ftRE s (\<lambda>m. parse_ft p m hm aw is_hm)
          (try_rule subRE s (\<lambda>m. parse_sub p m hm aw is_hm)
          (try_rule toRE s (\<lambda>m. parse_to p m hm aw is_hm)
          (try_rule offFoulRE s (\<lambda>m. parse_offFoul p m hm aw is_hm)
          (try_rule foulRE s (\<lambda>m. parse_foul p m hm aw is_hm)
          (try_rule looseBallRE s (\<lambda>m. parse_looseBall p m hm aw is_hm)
          (try_rule awayFromBallRE s
             (\<lambda>m. parse_oppFoul ''isAwayFromBallFoul'' awayFromBallRE p m hm aw is_hm)
          (try_rule inboundRE s
             (\<lambda>m. parse_oppFoul ''isInboundFoul'' inboundRE p m hm aw is_hm)
          (try_rule flagrantRE s (\<lambda>m. parse_flagrant p m hm aw is_hm)
          (try_rule clearPathRE s
             (\<lambda>m. parse_oppFoul ''isClearPathFoul'' clearPathRE p m hm aw is_hm)
          (try_rule timeoutRE s (\<lambda>m. parse_timeout teamIDs p m hm aw is_hm)
          (try_rule techRE s (\<lambda>m. parse_tech p m hm aw is_hm)
          (try_rule def3TechRE s (\<lambda>m. parse_def3Tech p m hm aw is_hm)
          (try_rule violRE s (\<lambda>m. parse_viol p m hm aw is_hm)
          (Inr (Some p))))))))))))))))))))
      | VNone \<Rightarrow> Inr None
      | VNaN \<Rightarrow> Inr None
      | VBool b \<Rightarrow> Inr None
      | VInt n \<Rightarrow> Inr None)"

subsection \<open>Notions used to state and prove the properties\<close>

text \<open>The patterns in the order \<open>parsePlay\<close> tries them.\<close>

definition patterns :: "rx list" where
  "patterns = [shotRE, jumpRE, rebRE, shotFoulRE, ftRE, subRE, toRE, offFoulRE, foulRE,
     looseBallRE, awayFromBallRE, inboundRE, flagrantRE, clearPathRE, timeoutRE, techRE,
     def3TechRE, violRE]"

text \<open>The value stored under a key of the returned dictionary.\<close>

definition field :: "error + pdict option \<Rightarrow> string \<Rightarrow> error + val option option" where
  "field r k = map_sum id (map_option (\<lambda>p. p k)) r"

text \<open>\<open>q\<close> has the four entries of lines 24 to 27 as \<open>p\<close> has them.\<close>

definition keeps :: "pdict \<Rightarrow> pdict \<Rightarrow> bool" where
  "keeps p q \<longleftrightarrow> q ''detail'' = p ''detail'' \<and> q ''home'' = p ''home'' \<and>
     q ''away'' = p ''away'' \<and> q ''isHomePlay'' = p ''isHomePlay''"

text \<open>
  \<open>r\<close> is a returned value, not an exception, and it is \<open>None\<close> only if the turnover
  pattern matched with its offensive-foul reason.
\<close>

definition returned :: "string \<Rightarrow> error + pdict option \<Rightarrow> bool" where
  "returned s r \<longleftrightarrow>
     (\<exists>v. r = Inr v \<and> (v = None \<longrightarrow> (\<exists>m. rx_match toRE s = Some m \<and> m ''isOffFoul'' \<noteq> None)))"

section \<open>Properties of the win-probability pass\<close>

subsection \<open>The two loops, row by row\<close>

lemma fix_first_Inr:
  "fix_first initwp js (wp, wpa) = Inr (wp', wpa') \<Longrightarrow> sorted_wrt (<) js \<Longrightarrow>
   length wpa = length wp \<Longrightarrow>
   length wp' = length wp \<and> length wpa' = length wp \<and>
   (\<forall>i\<in>set js. i + 1 < length wp) \<and>
   (\<forall>j<length wp. wp' ! j = (if j \<in> set js then Some initwp else wp ! j)) \<and>
   (\<forall>j<length wp. wpa' ! j =
       (if j \<in> set js then cell_sub (wp ! (j + 1)) (Some initwp) else wpa ! j))"
proof (induction js arbitrary: wp wpa)
  case Nil
  then show ?case by simp
next
  case (Cons i rest)
  let ?wp1 = "wp[i := Some initwp]"
  let ?wpa1 = "wpa[i := cell_sub (wp ! (i + 1)) (Some initwp)]"
  from Cons.prems(1) have inb: "i + 1 < length wp"
    by (auto simp: ix_def Let_def split: if_splits)
  with Cons.prems(1) have rec: "fix_first initwp rest (?wp1, ?wpa1) = Inr (wp', wpa')"
    by (simp add: ix_def Let_def)
  from Cons.prems(2) have srt: "sorted_wrt (<) rest" and gt: "\<forall>j\<in>set rest. i < j"
    by auto
  from Cons.prems(3) have len: "length ?wpa1 = length ?wp1" by simp
  note ih = Cons.IH [OF rec srt len]
  from gt have notin: "i \<notin> set rest" by auto
  show ?case
  proof (intro conjI allI impI ballI)
    show "length wp' = length wp" using ih by simp
    show "length wpa' = length wp" using ih by simp
  next
    fix k assume "k \<in> set (i # rest)"
    then show "k + 1 < length wp" using ih inb by auto
  next
    fix j assume j: "j < length wp"
    show "wp' ! j = (if j \<in> set (i # rest) then Some initwp else wp ! j)"
      using ih j notin by (auto simp: nth_list_update)
    show "wpa' ! j = (if j \<in> set (i # rest) then cell_sub (wp ! (j + 1)) (Some initwp) else wpa ! j)"
      using ih j notin gt Cons.prems(3) by (auto simp: nth_list_update)
  qed
qed

lemma fix_timeouts_Inr:
  "fix_timeouts fin wp ts wpa = Inr wpa' \<Longrightarrow> sorted_wrt (<) ts \<Longrightarrow>
   length wpa = length wp \<Longrightarrow>
   length wpa' = length wp \<and>
   (\<forall>t\<in>set ts. t + 1 < length wp) \<and>
   (\<forall>j<length wp. wpa' ! j =
       (if j \<in> set ts then Some 0
        else if 0 < j \<and> j - 1 \<in> set ts
             then (if j + 1 < length wp then cell_sub (wp ! (j + 1)) (wp ! j)
                   else cell_sub (Some fin) (wp ! j))
        else wpa ! j))"
proof (induction ts arbitrary: wpa)
  case Nil
  then show ?case by simp
next
  case (Cons t rest)
  let ?w = "if t + 2 < length wp then cell_sub (wp ! (t + 2)) (wp ! (t + 1))
            else cell_sub (Some fin) (wp ! (t + 1))"
  let ?wpa1 = "wpa[t := Some 0, t + 1 := ?w]"
  from Cons.prems(1) have inb: "t + 1 < length wp"
    by (auto simp: ix_def Let_def split: if_splits sum.splits)
  with Cons.prems(1) have rec: "fix_timeouts fin wp rest ?wpa1 = Inr wpa'"
    by (auto simp: ix_def Let_def split: if_splits)
  from Cons.prems(2) have srt: "sorted_wrt (<) rest" and gt: "\<forall>j\<in>set rest. t < j"
    by auto
  from Cons.prems(3) have len: "length ?wpa1 = length wp" by simp
  note ih = Cons.IH [OF rec srt len]
  from gt have notin: "t \<notin> set rest" by auto
  show ?case
  proof (intro conjI allI impI ballI)
    show "length wpa' = length wp" using ih by simp
  next
    fix k assume "k \<in> set (t # rest)"
    then show "k + 1 < length wp" using ih inb by auto
  next
    fix j assume j: "j < length wp"
    have ihj: "wpa' ! j =
       (if j \<in> set rest then Some 0
        else if 0 < j \<and> j - 1 \<in> set rest
             then (if j + 1 < length wp then cell_sub (wp ! (j + 1)) (wp ! j)
                   else cell_sub (Some fin) (wp ! j))
        else ?wpa1 ! j)" using ih j by blast
    consider "j = t" | "j = t + 1" | "j \<noteq> t" "j \<noteq> t + 1" by blast
    then show "wpa' ! j =
       (if j \<in> set (t # rest) then Some 0
        else if 0 < j \<and> j - 1 \<in> set (t # rest)
             then (if j + 1 < length wp then cell_sub (wp ! (j + 1)) (wp ! j)
                   else cell_sub (Some fin) (wp ! j))
        else wpa ! j)"
    proof cases
      case 1
      then show ?thesis using ihj notin gt j Cons.prems(3) by (auto simp: nth_list_update)
    next
      case 2
      then show ?thesis using ihj notin gt j Cons.prems(3)
        by (auto simp: nth_list_update numeral_2_eq_2)
    next
      case 3
      then show ?thesis using ihj notin gt j Cons.prems(3)
        by (auto simp: nth_list_update)
    qed
  qed
qed

lemma length_diff [simp]: "length (diff xs) = length xs"
  by (cases xs) (simp_all add: diff_def)

lemma length_shift1 [simp]: "length (shift1 xs) = length xs"
  by (cases xs) (simp_all add: shift1_def)

lemma length_ffill_from [simp]: "length (ffill_from p xs) = length xs"
  by (induction p xs rule: ffill_from.induct) simp_all

lemma length_lagged [simp]: "length (lagged df) = length (home_wp df)"
  by (simp add: lagged_def ffill_def)

lemma set_firstPlaysOfGame: "set (firstPlaysOfGame secs) = {i. i < length secs \<and> secs ! i = 0}"
  by (auto simp: firstPlaysOfGame_def)

lemma set_timeouts: "set (timeouts tos) = {i. i < length tos \<and> tos ! i}"
  by (auto simp: timeouts_def)

lemma sorted_firstPlaysOfGame: "sorted_wrt (<) (firstPlaysOfGame secs)"
  by (simp add: firstPlaysOfGame_def sorted_wrt_filter)

lemma sorted_timeouts: "sorted_wrt (<) (timeouts tos)"
  by (simp add: timeouts_def sorted_wrt_filter)

lemma pbp_Inr:
  assumes run: "pbp initwp w home df = Inr out" and wf: "wf_frame df"
  defines "n \<equiv> length (home_wp df)"
  shows "0 < n"
    and "length (home_wp out) = n" and "length (home_wpa out) = n"
    and "\<And>j. j < n \<Longrightarrow> secsElapsed df ! j = 0 \<Longrightarrow> j + 1 < n"
    and "\<And>j. j < n \<Longrightarrow> isTimeout df ! j \<Longrightarrow> j + 1 < n"
    and "\<And>j. j < n \<Longrightarrow>
           home_wp out ! j = (if secsElapsed df ! j = 0 then Some initwp else lagged df ! j)"
    and "\<And>j. j < n \<Longrightarrow> home_wpa out ! j =
           (if isTimeout df ! j then Some 0
            else if 0 < j \<and> isTimeout df ! (j - 1)
                 then (if j + 1 < n then cell_sub (home_wp out ! (j + 1)) (home_wp out ! j)
                       else cell_sub (Some (finalWP w home)) (home_wp out ! j))
            else if j = n - 1 then cell_sub (Some (finalWP w home)) (home_wp out ! j)
            else if secsElapsed df ! j = 0 then cell_sub (lagged df ! (j + 1)) (Some initwp)
            else diff (home_wp df) ! j)"
proof -
  let ?wp0 = "lagged df" and ?wpa0 = "diff (home_wp df)"
  let ?fin = "finalWP w home"
  from run obtain wp1 wpa1 where
    f1: "fix_first initwp (firstPlaysOfGame (secsElapsed df)) (?wp0, ?wpa0) = Inr (wp1, wpa1)"
    by (auto simp: pbp_def lagged_def Let_def split: sum.splits)
  have len0: "length ?wpa0 = length ?wp0" by simp
  note c1 = fix_first_Inr [OF f1 sorted_firstPlaysOfGame len0]
  have l1: "length wp1 = n" "length wpa1 = n" using c1 by (simp_all add: n_def)
  let ?wpa2 = "wpa1[n - 1 := cell_sub (Some ?fin) (wp1 ! (n - 1))]"
  from run f1 l1 have npos: "0 < n"
    by (auto simp: pbp_def lagged_def Let_def split: sum.splits if_splits)
  from run f1 l1 npos obtain wpa3 where
    f2: "fix_timeouts ?fin wp1 (timeouts (isTimeout df)) ?wpa2 = Inr wpa3"
    and out: "out = \<lparr>home_wp = wp1, secsElapsed = secsElapsed df,
                      isTimeout = isTimeout df, home_wpa = wpa3\<rparr>"
    by (auto simp: pbp_def lagged_def Let_def split: sum.splits if_splits)
  have len2: "length ?wpa2 = length wp1" using l1 by simp
  note c2 = fix_timeouts_Inr [OF f2 sorted_timeouts len2]
  have lens: "length (secsElapsed df) = n" "length (isTimeout df) = n"
    using wf by (simp_all add: wf_frame_def n_def)
  show "0 < n" by (rule npos)
  show "length (home_wp out) = n" using out l1 by simp
  show "length (home_wpa out) = n" using out c2 l1 by simp
  show "\<And>j. j < n \<Longrightarrow> secsElapsed df ! j = 0 \<Longrightarrow> j + 1 < n"
    using c1 lens by (simp add: set_firstPlaysOfGame n_def)
  show "\<And>j. j < n \<Longrightarrow> isTimeout df ! j \<Longrightarrow> j + 1 < n"
    using c2 lens l1 by (simp add: set_timeouts)
  show wp: "\<And>j. j < n \<Longrightarrow>
           home_wp out ! j = (if secsElapsed df ! j = 0 then Some initwp else lagged df ! j)"
    using c1 lens out by (simp add: set_firstPlaysOfGame n_def)
  fix j assume j: "j < n"
  have a1: "wpa1 ! j = (if secsElapsed df ! j = 0 then cell_sub (lagged df ! (j + 1)) (Some initwp)
                        else diff (home_wp df) ! j)"
    using c1 lens j by (simp add: set_firstPlaysOfGame n_def)
  have a2: "?wpa2 ! j = (if j = n - 1 then cell_sub (Some ?fin) (wp1 ! j) else wpa1 ! j)"
    using j l1 by (simp add: nth_list_update)
  have a3: "wpa3 ! j =
       (if j \<in> set (timeouts (isTimeout df)) then Some 0
        else if 0 < j \<and> j - 1 \<in> set (timeouts (isTimeout df))
             then (if j + 1 < n then cell_sub (wp1 ! (j + 1)) (wp1 ! j)
                   else cell_sub (Some ?fin) (wp1 ! j))
        else ?wpa2 ! j)"
    using c2 j l1 by simp
  have m1: "j \<in> set (timeouts (isTimeout df)) \<longleftrightarrow> isTimeout df ! j"
    using j lens by (simp add: set_timeouts)
  have m2: "0 < j \<Longrightarrow> j - 1 \<in> set (timeouts (isTimeout df)) \<longleftrightarrow> isTimeout df ! (j - 1)"
    using j lens by (auto simp: set_timeouts)
  show "home_wpa out ! j =
           (if isTimeout df ! j then Some 0
            else if 0 < j \<and> isTimeout df ! (j - 1)
                 then (if j + 1 < n then cell_sub (home_wp out ! (j + 1)) (home_wp out ! j)
                       else cell_sub (Some (finalWP w home)) (home_wp out ! j))
            else if j = n - 1 then cell_sub (Some (finalWP w home)) (home_wp out ! j)
            else if secsElapsed df ! j = 0 then cell_sub (lagged df ! (j + 1)) (Some initwp)
            else diff (home_wp df) ! j)"
    using a1 a2 a3 m1 m2 out by auto
qed

lemma fix_first_ok:
  "\<forall>i\<in>set js. i + 1 < length wp \<Longrightarrow> \<exists>r. fix_first initwp js (wp, wpa) = Inr r"
  by (induction js arbitrary: wp wpa) (simp_all add: ix_def Let_def)

lemma fix_timeouts_ok:
  "\<forall>t\<in>set ts. t + 1 < length wp \<Longrightarrow> \<exists>r. fix_timeouts fin wp ts wpa = Inr r"
  by (induction ts arbitrary: wpa) (simp_all add: ix_def Let_def)

lemma pbp_ok:
  assumes wf: "wf_frame df" and npos: "0 < length (home_wp df)"
    and z: "\<forall>j<length (home_wp df). secsElapsed df ! j = 0 \<longrightarrow> j + 1 < length (home_wp df)"
    and t: "\<forall>j<length (home_wp df). isTimeout df ! j \<longrightarrow> j + 1 < length (home_wp df)"
  shows "\<exists>out. pbp initwp w home df = Inr out"
proof -
  let ?n = "length (home_wp df)"
  have lens: "length (secsElapsed df) = ?n" "length (isTimeout df) = ?n"
    using wf by (simp_all add: wf_frame_def)
  have "\<forall>i\<in>set (firstPlaysOfGame (secsElapsed df)). i + 1 < length (lagged df)"
    using z lens by (simp add: set_firstPlaysOfGame)
  from fix_first_ok [OF this] obtain wp1 wpa1 where
    f1: "fix_first initwp (firstPlaysOfGame (secsElapsed df)) (lagged df, diff (home_wp df))
           = Inr (wp1, wpa1)" by fastforce
  have l1: "length wp1 = ?n"
    using fix_first_Inr [OF f1 sorted_firstPlaysOfGame] by simp
  have "\<forall>i\<in>set (timeouts (isTimeout df)). i + 1 < length wp1"
    using t lens l1 by (simp add: set_timeouts)
  from fix_timeouts_ok [OF this] obtain wpa3 where
    "fix_timeouts (finalWP w home) wp1 (timeouts (isTimeout df))
       (wpa1[?n - 1 := cell_sub (Some (finalWP w home)) (wp1 ! (?n - 1))]) = Inr wpa3"
    by blast
  moreover have "wp1 \<noteq> []" using l1 npos by auto
  ultimately show ?thesis using f1 l1
    by (simp add: pbp_def lagged_def Let_def)
qed

lemma ffill_from_nth:
  "j < length xs \<Longrightarrow> ffill_from p xs ! j =
     (case xs ! j of Some v \<Rightarrow> Some v
      | None \<Rightarrow> (if j = 0 then p else ffill_from p xs ! (j - 1)))"
proof (induction p xs arbitrary: j rule: ffill_from.induct)
  case (1 prev)
  then show ?case by simp
next
  case (2 prev xs)
  then show ?case by (cases j) (auto split: option.splits)
next
  case (3 prev v xs)
  then show ?case by (cases j) (auto split: option.splits)
qed

lemma shift1_nth_Suc: "Suc j < length xs \<Longrightarrow> shift1 xs ! Suc j = xs ! j"
  by (cases xs) (simp_all add: shift1_def nth_butlast del: butlast.simps)

lemma lagged_Suc:
  "Suc j < length (home_wp df) \<Longrightarrow>
   lagged df ! Suc j = (case home_wp df ! j of Some v \<Rightarrow> Some v | None \<Rightarrow> lagged df ! j)"
  by (simp add: lagged_def ffill_def ffill_from_nth shift1_nth_Suc split: option.splits)

lemma diff_nth:
  "0 < j \<Longrightarrow> j < length xs \<Longrightarrow> diff xs ! j = cell_sub (xs ! j) (xs ! (j - 1))"
  by (cases xs; cases j) (simp_all add: diff_def)

lemma foldl_cell_add_Some:
  "foldl cell_add (Some a) (map Some ws) = Some (a + sum_list ws)"
  by (induction ws arbitrary: a) (simp_all add: add.assoc)

lemma col_sum_Some: "col_sum (map Some ws) = Some (sum_list ws)"
  by (simp add: col_sum_def foldl_cell_add_Some)

lemma col_sum_telescope:
  assumes len: "length xs = n" and nth: "\<And>j. j < n \<Longrightarrow> xs ! j = Some (V (Suc j) - V j)"
  shows "col_sum xs = Some (V n - V 0)"
proof -
  have "xs = map Some (map (\<lambda>j. V (Suc j) - V j) [0..<n])"
    using len nth by (intro nth_equalityI) simp_all
  then have "col_sum xs = Some (sum_list (map (\<lambda>j. V (Suc j) - V j) [0..<n]))"
    using col_sum_Some by metis
  also have "sum_list (map (\<lambda>j. V (Suc j) - V j) [0..<n]) = (\<Sum>j = 0..<n. V (Suc j) - V j)"
    by (simp add: interv_sum_list_conv_sum_set_nat)
  also have "\<dots> = V n - V 0" by (rule sum_Suc_diff') simp
  finally show ?thesis .
qed


subsection \<open>The model's value on the last row is not read\<close>

lemma pbp_Inr_cols:
  assumes run: "pbp initwp w home df = Inr out"
  shows "secsElapsed out = secsElapsed df" and "isTimeout out = isTimeout df"
  using run by (auto simp: pbp_def Let_def split: sum.splits if_splits prod.splits)

lemma shift1_last: "xs \<noteq> [] \<Longrightarrow> shift1 (xs[length xs - 1 := v]) = shift1 xs"
proof -
  assume ne: "xs \<noteq> []"
  then have "xs[length xs - 1 := v] = butlast xs @ [v]"
    by (induction xs) (auto split: nat.splits simp: list_update_code)
  with ne show ?thesis by (cases xs) (auto simp: shift1_def)
qed

lemma diff_nth_0: "xs \<noteq> [] \<Longrightarrow> diff xs ! 0 = None"
  by (cases xs) (simp_all add: diff_def)

lemma diff_last:
  assumes "j < length xs - 1"
  shows "diff (xs[length xs - 1 := v]) ! j = diff xs ! j"
proof (cases "j = 0")
  case True
  from assms have "xs \<noteq> []" by auto
  with True show ?thesis by (simp add: diff_nth_0)
next
  case False
  with assms show ?thesis by (simp add: diff_nth)
qed

lemma pbp_ignores_last_raw:
  assumes run: "pbp initwp w home df = Inr out" and wf: "wf_frame df"
  shows "pbp initwp w home (df\<lparr>home_wp := (home_wp df)[length (home_wp df) - 1 := v]\<rparr>) = Inr out"
proof -
  let ?n = "length (home_wp df)"
  let ?df' = "df\<lparr>home_wp := (home_wp df)[?n - 1 := v]\<rparr>"
  note c = pbp_Inr [OF run wf]
  have len': "length (home_wp ?df') = ?n" by simp
  have wf': "wf_frame ?df'" using wf by (simp add: wf_frame_def)
  have z: "\<forall>j<length (home_wp ?df'). secsElapsed ?df' ! j = 0 \<longrightarrow> j + 1 < length (home_wp ?df')"
    using c(4) by simp
  have t: "\<forall>j<length (home_wp ?df'). isTimeout ?df' ! j \<longrightarrow> j + 1 < length (home_wp ?df')"
    using c(5) by simp
  have npos: "0 < length (home_wp ?df')" using c(1) by simp
  from pbp_ok [OF wf' npos z t] obtain out' where run': "pbp initwp w home ?df' = Inr out'"
    by blast
  note c' = pbp_Inr [OF run' wf', unfolded len']
  have ne: "home_wp df \<noteq> []" using c(1) by auto
  have lag: "lagged ?df' = lagged df" using shift1_last [OF ne] by (simp add: lagged_def)
  have wp: "home_wp out' = home_wp out"
  proof (rule nth_equalityI)
    show "length (home_wp out') = length (home_wp out)" using c(2) c'(2) by simp
    fix j assume "j < length (home_wp out')"
    then have j: "j < ?n" using c'(2) by simp
    show "home_wp out' ! j = home_wp out ! j" using c(6) [OF j] c'(6) [OF j] lag by simp
  qed
  have sel: "secsElapsed ?df' = secsElapsed df" "isTimeout ?df' = isTimeout df"
    "home_wp ?df' = (home_wp df)[?n - 1 := v]"
    by simp_all
  have wpa: "home_wpa out' = home_wpa out"
  proof (rule nth_equalityI)
    show "length (home_wpa out') = length (home_wpa out)" using c(3) c'(3) by simp
    fix j assume "j < length (home_wpa out')"
    then have j: "j < ?n" using c'(3) by simp
    note e = c(7) [OF j] and e' = c'(7) [OF j, unfolded sel lag wp]
    show "home_wpa out' ! j = home_wpa out ! j"
    proof (cases "j = ?n - 1")
      case True
      then show ?thesis unfolding e e' by simp
    next
      case False
      with j have "j < ?n - 1" by simp
      from diff_last [OF this]
      have dd: "diff ((home_wp df)[?n - 1 := v]) ! j = diff (home_wp df) ! j" .
      show ?thesis unfolding e e' dd by (rule refl)
    qed
  qed
  have "out' = out"
    using wp wpa pbp_Inr_cols [OF run] pbp_Inr_cols [OF run'] by simp
  with run' show ?thesis by simp
qed

subsection \<open>Rows with zero elapsed seconds\<close>

text \<open>
  Claim C2, as the code has it. When the pass returns, every row \<open>i\<close> with
  \<open>secsElapsed = 0\<close> has \<open>home_wp\<close> set to the pregame win probability \<open>initwp\<close>,
  whether or not it is the first row: nothing is carried forward from the row before.
  Such a row is never the last one. Unless row \<open>i\<close> or row \<open>i - 1\<close> is a timeout, its
  \<open>home_wpa\<close> is the lagged series at \<open>i + 1\<close> minus the corrected \<open>home_wp\<close> at \<open>i\<close>;
  the lagged series at \<open>i + 1\<close> is the model's value of row \<open>i\<close> when that is not NaN.
\<close>

theorem zero_elapsed_row_gets_pregame_wp:
  assumes run: "pbp initwp w home df = Inr out" and wf: "wf_frame df"
    and i: "i < length (home_wp df)" and z: "secsElapsed df ! i = 0"
  shows "home_wp out ! i = Some initwp \<and> i + 1 < length (home_wp df) \<and>
         (\<not> isTimeout df ! i \<and> (0 < i \<longrightarrow> \<not> isTimeout df ! (i - 1)) \<longrightarrow>
            home_wpa out ! i = cell_sub (lagged df ! (i + 1)) (home_wp out ! i)) \<and>
         (home_wp df ! i \<noteq> None \<longrightarrow> lagged df ! (i + 1) = home_wp df ! i)"
proof -
  note c = pbp_Inr [OF run wf]
  have nxt: "i + 1 < length (home_wp df)" using c(4) i z by blast
  have wp: "home_wp out ! i = Some initwp" using c(6) i z by simp
  have wpa: "\<not> isTimeout df ! i \<and> (0 < i \<longrightarrow> \<not> isTimeout df ! (i - 1)) \<longrightarrow>
            home_wpa out ! i = cell_sub (lagged df ! (i + 1)) (home_wp out ! i)"
    using c(7) [OF i] nxt z wp by auto
  have "home_wp df ! i \<noteq> None \<longrightarrow> lagged df ! (i + 1) = home_wp df ! i"
    using lagged_Suc [of i df] nxt by (auto split: option.splits)
  with nxt wp wpa show ?thesis by blast
qed

theorem zero_elapsed_row_gets_pregame_wp_witness:
  "pbp 48 (Some ''BOS'') ''BOS'' (game [50, 55, 60, 58] [0, 10, 0, 5] [False, False, False, False]) =
     Inr \<lparr>home_wp = [Some 48, Some 50, Some 48, Some 60], secsElapsed = [0, 10, 0, 5],
          isTimeout = [False, False, False, False],
          home_wpa = [Some 2, Some 5, Some 12, Some 40]\<rparr> \<and>
   home_wp \<lparr>home_wp = [Some 48, Some 50, Some 48, Some 60], secsElapsed = [0, 10, 0, 5],
          isTimeout = [False, False, False, False],
          home_wpa = [Some 2, Some 5, Some 12, Some 40]\<rparr> ! 2 = Some 48 \<and>
   home_wpa \<lparr>home_wp = [Some 48, Some 50, Some 48, Some 60], secsElapsed = [0, 10, 0, 5],
          isTimeout = [False, False, False, False],
          home_wpa = [Some 2, Some 5, Some 12, Some 40]\<rparr> ! 2 =
     cell_sub (lagged (game [50, 55, 60, 58] [0, 10, 0, 5] [False, False, False, False]) ! (2 + 1))
       (home_wp \<lparr>home_wp = [Some 48, Some 50, Some 48, Some 60], secsElapsed = [0, 10, 0, 5],
          isTimeout = [False, False, False, False],
          home_wpa = [Some 2, Some 5, Some 12, Some 40]\<rparr> ! 2) \<and>
   lagged (game [50, 55, 60, 58] [0, 10, 0, 5] [False, False, False, False]) ! (2 + 1) =
     home_wp (game [50, 55, 60, 58] [0, 10, 0, 5] [False, False, False, False]) ! 2"
proof -
  let ?G = "game [50, 55, 60, 58] [0, 10, 0, 5] [False, False, False, False]"
  have run: "pbp 48 (Some ''BOS'') ''BOS'' ?G =
     Inr \<lparr>home_wp = [Some 48, Some 50, Some 48, Some 60], secsElapsed = [0, 10, 0, 5],
          isTimeout = [False, False, False, False],
          home_wpa = [Some 2, Some 5, Some 12, Some 40]\<rparr>"
    by code_simp
  have wf: "wf_frame ?G" by (simp add: wf_frame_def game_def)
  have i: "2 < length (home_wp ?G)" by (simp add: game_def)
  have z: "secsElapsed ?G ! 2 = 0" by (simp add: game_def)
  have nt: "\<not> isTimeout ?G ! 2 \<and> (0 < (2::nat) \<longrightarrow> \<not> isTimeout ?G ! (2 - 1))"
    by (simp add: game_def)
  have raw: "home_wp ?G ! 2 \<noteq> None" by (simp add: game_def)
  from zero_elapsed_row_gets_pregame_wp [OF run wf i z] nt raw run
  show ?thesis by blast
qed

text \<open>
  The claim as stated fails on a game whose row 2 has zero elapsed seconds and is not
  the first row: its corrected \<open>home_wp\<close> is the pregame 48, not the 50 that row 1 closed
  with, nor the 55 the lagged series holds at row 2.
\<close>

theorem zero_elapsed_not_carried_forward_counterexample:
  "pbp 48 (Some ''BOS'') ''BOS'' (game [50, 55, 60, 58] [0, 10, 0, 5] [False, False, False, False]) =
     Inr \<lparr>home_wp = [Some 48, Some 50, Some 48, Some 60], secsElapsed = [0, 10, 0, 5],
          isTimeout = [False, False, False, False],
          home_wpa = [Some 2, Some 5, Some 12, Some 40]\<rparr> \<and>
   lagged (game [50, 55, 60, 58] [0, 10, 0, 5] [False, False, False, False]) = [None, Some 50, Some 55, Some 60]"
  by code_simp

subsection \<open>The last row\<close>

text \<open>
  Claim C3, as the code has it. When the pass returns, \<open>home_wp\<close> at the last row is
  left at the lagged value (the pass never writes the terminal value into \<open>home_wp\<close>),
  and \<open>home_wpa\<close> at the last row is \<open>finalWP\<close> minus that recorded \<open>home_wp\<close>.
  \<open>finalWP\<close> is 100 when the home team won, 50 for a tie, and 0 when the away team
  won (100 if the two team IDs are the same string). The model's own value on the last
  row has no influence: with any other value there the pass returns the same frame.
\<close>

theorem last_row_wpa:
  assumes run: "pbp initwp w home df = Inr out" and wf: "wf_frame df"
  shows "home_wp out ! (length (home_wp df) - 1) = lagged df ! (length (home_wp df) - 1) \<and>
         home_wpa out ! (length (home_wp df) - 1) =
           cell_sub (Some (finalWP w home)) (home_wp out ! (length (home_wp df) - 1)) \<and>
         finalWP (winner hmScore awScore home away) home =
           (if hmScore > awScore then 100
            else if hmScore < awScore then (if away = home then 100 else 0)
            else 50) \<and>
         pbp initwp w home (df\<lparr>home_wp := (home_wp df)[length (home_wp df) - 1 := v]\<rparr>) = Inr out"
proof -
  let ?n = "length (home_wp df)"
  note c = pbp_Inr [OF run wf]
  have l: "?n - 1 < ?n" using c(1) by simp
  have nz: "secsElapsed df ! (?n - 1) \<noteq> 0" using c(4) [OF l] c(1) by auto
  have nt: "\<not> isTimeout df ! (?n - 1)" using c(5) [OF l] c(1) by auto
  have "home_wp out ! (?n - 1) = lagged df ! (?n - 1)" using c(6) [OF l] nz by simp
  moreover have "home_wpa out ! (?n - 1) =
           cell_sub (Some (finalWP w home)) (home_wp out ! (?n - 1))"
    using c(7) [OF l] nt c(1) by auto
  moreover have "finalWP (winner hmScore awScore home away) home =
           (if hmScore > awScore then 100
            else if hmScore < awScore then (if away = home then 100 else 0)
            else 50)"
    by (simp add: finalWP_def winner_def)
  moreover note pbp_ignores_last_raw [OF run wf, of v]
  ultimately show ?thesis by blast
qed

theorem last_row_wpa_witness:
  "pbp 48 (Some ''BOS'') ''BOS'' (game [50, 55, 60] [0, 10, 20] [False, False, False]) =
     Inr \<lparr>home_wp = [Some 48, Some 50, Some 55], secsElapsed = [0, 10, 20],
          isTimeout = [False, False, False], home_wpa = [Some 2, Some 5, Some 45]\<rparr> \<and>
   home_wpa \<lparr>home_wp = [Some 48, Some 50, Some 55], secsElapsed = [0, 10, 20],
          isTimeout = [False, False, False], home_wpa = [Some 2, Some 5, Some 45]\<rparr> !
       (length (home_wp (game [50, 55, 60] [0, 10, 20] [False, False, False])) - 1) =
     cell_sub (Some (finalWP (Some ''BOS'') ''BOS''))
       (home_wp \<lparr>home_wp = [Some 48, Some 50, Some 55], secsElapsed = [0, 10, 20],
          isTimeout = [False, False, False], home_wpa = [Some 2, Some 5, Some 45]\<rparr> !
         (length (home_wp (game [50, 55, 60] [0, 10, 20] [False, False, False])) - 1)) \<and>
   finalWP (Some ''BOS'') ''BOS'' = 100 \<and>
   pbp 48 (Some ''BOS'') ''BOS'' (game [50, 55, 99] [0, 10, 20] [False, False, False]) =
     Inr \<lparr>home_wp = [Some 48, Some 50, Some 55], secsElapsed = [0, 10, 20],
          isTimeout = [False, False, False], home_wpa = [Some 2, Some 5, Some 45]\<rparr>"
proof -
  let ?G = "game [50, 55, 60] [0, 10, 20] [False, False, False]"
  have run: "pbp 48 (Some ''BOS'') ''BOS'' ?G =
     Inr \<lparr>home_wp = [Some 48, Some 50, Some 55], secsElapsed = [0, 10, 20],
          isTimeout = [False, False, False], home_wpa = [Some 2, Some 5, Some 45]\<rparr>"
    by code_simp
  have wf: "wf_frame ?G" by (simp add: wf_frame_def game_def)
  have fin: "finalWP (Some ''BOS'') ''BOS'' = 100" by (simp add: finalWP_def)
  have upd: "?G\<lparr>home_wp := (home_wp ?G)[length (home_wp ?G) - 1 := Some 99]\<rparr> =
             game [50, 55, 99] [0, 10, 20] [False, False, False]"
    by (simp add: game_def)
  from last_row_wpa [OF run wf, of _ _ _ "Some 99"] run fin
  show ?thesis unfolding upd by blast
qed

text \<open>
  The claim as stated fails on a three-row game the home team wins: the last row keeps
  \<open>home_wp = 55\<close>, it is not forced to 100.
\<close>

theorem last_row_wp_not_forced_counterexample:
  "pbp 48 (Some ''BOS'') ''BOS'' (game [50, 55, 60] [0, 10, 20] [False, False, False]) =
     Inr \<lparr>home_wp = [Some 48, Some 50, Some 55], secsElapsed = [0, 10, 20],
          isTimeout = [False, False, False], home_wpa = [Some 2, Some 5, Some 45]\<rparr> \<and>
   finalWP (Some ''BOS'') ''BOS'' = 100"
  by code_simp

subsection \<open>Timeout rows\<close>

text \<open>
  Claim C4, as the code has it. When the pass returns, every timeout row \<open>t\<close> has
  \<open>home_wpa = 0\<close> and is not the last row. If row \<open>t + 1\<close> is not a timeout itself, its
  \<open>home_wpa\<close> is \<open>home_wp\<close> at \<open>t + 2\<close> minus \<open>home_wp\<close> at \<open>t + 1\<close> when row \<open>t + 2\<close>
  exists, and \<open>finalWP\<close> minus \<open>home_wp\<close> at \<open>t + 1\<close> otherwise, where \<open>home_wp\<close> is the
  column as the pass leaves it. If moreover neither row has zero elapsed seconds and
  the model's value on the timeout row is NaN or equal to the value before it, the two
  rows together carry the whole swing from \<open>home_wp\<close> at \<open>t\<close> to the value after row
  \<open>t + 1\<close>.
\<close>

theorem timeout_rows_wpa:
  assumes run: "pbp initwp w home df = Inr out" and wf: "wf_frame df"
    and t: "t < length (home_wp df)" and isto: "isTimeout df ! t"
  shows "home_wpa out ! t = Some 0 \<and> t + 1 < length (home_wp df) \<and>
         (\<not> isTimeout df ! (t + 1) \<longrightarrow>
            home_wpa out ! (t + 1) =
              cell_sub (if t + 2 < length (home_wp df) then home_wp out ! (t + 2)
                        else Some (finalWP w home))
                       (home_wp out ! (t + 1))) \<and>
         (\<not> isTimeout df ! (t + 1) \<and> secsElapsed df ! t \<noteq> 0 \<and> secsElapsed df ! (t + 1) \<noteq> 0 \<and>
          (home_wp df ! t = None \<or> home_wp df ! t = lagged df ! t) \<longrightarrow>
            cell_add (home_wpa out ! t) (home_wpa out ! (t + 1)) =
              cell_sub (if t + 2 < length (home_wp df) then home_wp out ! (t + 2)
                        else Some (finalWP w home))
                       (home_wp out ! t))"
proof -
  let ?n = "length (home_wp df)"
  let ?X = "if t + 2 < ?n then home_wp out ! (t + 2) else Some (finalWP w home)"
  note c = pbp_Inr [OF run wf]
  have nxt: "t + 1 < ?n" using c(5) t isto by blast
  have z: "home_wpa out ! t = Some 0" using c(7) [OF t] isto by simp
  have r: "\<not> isTimeout df ! (t + 1) \<longrightarrow>
            home_wpa out ! (t + 1) = cell_sub ?X (home_wp out ! (t + 1))"
    using c(7) [OF nxt] isto by (auto simp: numeral_2_eq_2)
  have s: "secsElapsed df ! t \<noteq> 0 \<and> secsElapsed df ! (t + 1) \<noteq> 0 \<and>
          (home_wp df ! t = None \<or> home_wp df ! t = lagged df ! t) \<longrightarrow>
          home_wp out ! (t + 1) = home_wp out ! t"
    using c(6) [OF nxt] c(6) [OF t] lagged_Suc [of t df] nxt
    by (auto split: option.splits)
  have "cell_add (Some 0) (cell_sub a b) = cell_sub a b" for a b
    by (cases a; cases b) simp_all
  with z r s nxt show ?thesis by auto
qed

theorem timeout_rows_wpa_witness:
  "pbp 48 (Some ''BOS'') ''BOS''
     \<lparr>home_wp = [Some 50, Some 55, None, Some 58, Some 62], secsElapsed = [0, 1, 2, 3, 4],
      isTimeout = [False, False, True, False, False]\<rparr> =
     Inr \<lparr>home_wp = [Some 48, Some 50, Some 55, Some 55, Some 58], secsElapsed = [0, 1, 2, 3, 4],
          isTimeout = [False, False, True, False, False],
          home_wpa = [Some 2, Some 5, Some 0, Some 3, Some 42]\<rparr> \<and>
   home_wpa \<lparr>home_wp = [Some 48, Some 50, Some 55, Some 55, Some 58], secsElapsed = [0, 1, 2, 3, 4],
          isTimeout = [False, False, True, False, False],
          home_wpa = [Some 2, Some 5, Some 0, Some 3, Some 42]\<rparr> ! 2 = Some 0 \<and>
   cell_add
     (home_wpa \<lparr>home_wp = [Some 48, Some 50, Some 55, Some 55, Some 58], secsElapsed = [0, 1, 2, 3, 4],
          isTimeout = [False, False, True, False, False],
          home_wpa = [Some 2, Some 5, Some 0, Some 3, Some 42]\<rparr> ! 2)
     (home_wpa \<lparr>home_wp = [Some 48, Some 50, Some 55, Some 55, Some 58], secsElapsed = [0, 1, 2, 3, 4],
          isTimeout = [False, False, True, False, False],
          home_wpa = [Some 2, Some 5, Some 0, Some 3, Some 42]\<rparr> ! (2 + 1)) = Some 3"
proof -
  let ?G = "\<lparr>home_wp = [Some 50, Some 55, None, Some 58, Some 62], secsElapsed = [0, 1, 2, 3, 4],
      isTimeout = [False, False, True, False, False]\<rparr>"
  let ?O = "\<lparr>home_wp = [Some 48, Some 50, Some 55, Some 55, Some 58], secsElapsed = [0, 1, 2, 3, 4],
          isTimeout = [False, False, True, False, False],
          home_wpa = [Some 2, Some 5, Some 0, Some 3, Some 42]\<rparr>"
  have run: "pbp 48 (Some ''BOS'') ''BOS'' ?G = Inr ?O"
    by code_simp
  have wf: "wf_frame ?G" by (simp add: wf_frame_def)
  have t: "2 < length (home_wp ?G)" by simp
  have isto: "isTimeout ?G ! 2" by simp
  have side: "\<not> isTimeout ?G ! (2 + 1) \<and> secsElapsed ?G ! 2 \<noteq> 0 \<and>
      secsElapsed ?G ! (2 + 1) \<noteq> 0 \<and>
      (home_wp ?G ! 2 = None \<or> home_wp ?G ! 2 = lagged ?G ! 2)"
    by simp
  have val: "cell_sub (if 2 + 2 < length (home_wp ?G) then home_wp ?O ! (2 + 2)
                       else Some (finalWP (Some ''BOS'') ''BOS'')) (home_wp ?O ! 2) = Some 3"
    by simp
  from timeout_rows_wpa [OF run wf t isto] side
  have "home_wpa ?O ! 2 = Some 0 \<and>
        cell_add (home_wpa ?O ! 2) (home_wpa ?O ! (2 + 1)) =
          cell_sub (if 2 + 2 < length (home_wp ?G) then home_wp ?O ! (2 + 2)
                    else Some (finalWP (Some ''BOS'') ''BOS'')) (home_wp ?O ! 2)"
    by blast
  with run val show ?thesis by metis
qed

text \<open>
  The claim as stated fails on a five-row game whose row 2 is a timeout with a model
  value (60) that differs from the 55 before it. The rows sum to 47. The same rows
  with row 2 not marked as a timeout sum to 52, and so does the game without row 2:
  the timeout row changes the total attributed to the plays around it.
\<close>

theorem timeout_changes_total_counterexample:
  "pbp 48 (Some ''BOS'') ''BOS''
     (game [50, 55, 60, 58, 62] [0, 1, 2, 3, 4] [False, False, True, False, False]) =
     Inr \<lparr>home_wp = [Some 48, Some 50, Some 55, Some 60, Some 58], secsElapsed = [0, 1, 2, 3, 4],
          isTimeout = [False, False, True, False, False],
          home_wpa = [Some 2, Some 5, Some 0, Some (- 2), Some 42]\<rparr> \<and>
   pbp 48 (Some ''BOS'') ''BOS''
     (game [50, 55, 60, 58, 62] [0, 1, 2, 3, 4] [False, False, False, False, False]) =
     Inr \<lparr>home_wp = [Some 48, Some 50, Some 55, Some 60, Some 58], secsElapsed = [0, 1, 2, 3, 4],
          isTimeout = [False, False, False, False, False],
          home_wpa = [Some 2, Some 5, Some 5, Some (- 2), Some 42]\<rparr> \<and>
   pbp 48 (Some ''BOS'') ''BOS''
     (game [50, 55, 58, 62] [0, 1, 3, 4] [False, False, False, False]) =
     Inr \<lparr>home_wp = [Some 48, Some 50, Some 55, Some 58], secsElapsed = [0, 1, 3, 4],
          isTimeout = [False, False, False, False],
          home_wpa = [Some 2, Some 5, Some 3, Some 42]\<rparr> \<and>
   col_sum [Some 2, Some 5, Some 0, Some (- 2), Some 42] = Some 47 \<and>
   col_sum [Some 2, Some 5, Some 5, Some (- 2), Some 42] = Some 52 \<and>
   col_sum [Some 2, Some 5, Some 3, Some 42] = Some 52"
  by code_simp

subsection \<open>The sum of the win probability added\<close>

text \<open>
  Claim C5, as the code has it. Take a game of at least two rows in which row 0 is the
  only row with zero elapsed seconds, the first and the last row are not timeouts, the
  model's value is NaN only on timeout rows (the last row's value is never read), and
  on every timeout row the model's value is NaN or equal to the lagged value before
  it. Then the pass returns, \<open>home_wp\<close> at row 0 is the pregame value, and the
  \<open>home_wpa\<close> column telescopes term by term: on every row it is the \<open>home_wp\<close> of the
  next row minus the \<open>home_wp\<close> of this row, with \<open>finalWP\<close> standing in after the last
  row. Each term is one subtraction of two stored values. If moreover the pregame value
  and the model's values are whole numbers between 0 and 100, so that the sum is formed
  without rounding, the \<open>home_wpa\<close> column sums to \<open>finalWP\<close> minus the pregame value.
  The five-row game of the claim is such a game, with sum \<open>100 - 48\<close>. For values that
  are not whole numbers the code's sum is rounded and need not equal the difference
  (in doubles, model values 0.1, 0.3, 0.6, 0.7 with pregame value 0.2 and a home win
  sum to 99.80000000000001, not to 99.8).
\<close>

theorem wpa_telescopes:
  assumes wf: "wf_frame df" and n2: "2 \<le> length (home_wp df)"
    and secs: "\<forall>i<length (home_wp df). (secsElapsed df ! i = 0) = (i = 0)"
    and to0: "\<not> isTimeout df ! 0"
    and tolast: "\<not> isTimeout df ! (length (home_wp df) - 1)"
    and nan: "\<forall>i<length (home_wp df) - 1. home_wp df ! i = None \<longrightarrow> isTimeout df ! i"
    and flat: "\<forall>i<length (home_wp df). isTimeout df ! i \<longrightarrow>
                 home_wp df ! i = None \<or> home_wp df ! i = lagged df ! i"
  shows "\<exists>out. pbp initwp w home df = Inr out \<and> home_wp out ! 0 = Some initwp \<and>
           (\<forall>j<length (home_wp df).
               home_wpa out ! j =
                 cell_sub (if j + 1 < length (home_wp df) then home_wp out ! (j + 1)
                           else Some (finalWP w home))
                          (home_wp out ! j)) \<and>
           (whole_game initwp df \<longrightarrow>
              col_sum (home_wpa out) = Some (finalWP w home - initwp))"
proof -
  let ?n = "length (home_wp df)"
  let ?fin = "finalWP w home"
  have z: "\<forall>j<?n. secsElapsed df ! j = 0 \<longrightarrow> j + 1 < ?n" using secs n2 by auto
  have tl: "\<forall>j<?n. isTimeout df ! j \<longrightarrow> j + 1 < ?n"
  proof (intro allI impI)
    fix j assume "j < ?n" "isTimeout df ! j"
    with tolast have "j \<noteq> ?n - 1" by auto
    with \<open>j < ?n\<close> show "j + 1 < ?n" by simp
  qed
  have npos: "0 < ?n" using n2 by arith
  from pbp_ok [OF wf npos z tl] obtain out where run: "pbp initwp w home df = Inr out"
    by blast
  note c = pbp_Inr [OF run wf]
  define W where "W j = (if j = 0 then Some initwp else lagged df ! j)" for j
  have wpW: "home_wp out ! j = W j" if "j < ?n" for j
    using c(6) [OF that] secs that by (auto simp: W_def)
  have "0 < ?n - 1" using n2 by arith
  then have raw0: "home_wp df ! 0 \<noteq> None" using nan to0 by blast
  have step: "W (Suc j) = (if isTimeout df ! j then W j else home_wp df ! j)
              \<and> (\<not> isTimeout df ! j \<longrightarrow> home_wp df ! j \<noteq> None)" if "Suc j < ?n" for j
  proof (cases "j = 0")
    case True
    then show ?thesis using lagged_Suc [OF that] raw0 to0 by (auto simp: W_def)
  next
    case False
    have "j < ?n" "j < ?n - 1" using that by simp_all
    then show ?thesis using lagged_Suc [OF that] False nan flat
      by (auto simp: W_def split: option.splits)
  qed
  have Wsome: "j < ?n \<Longrightarrow> \<exists>v. W j = Some v" for j
  proof (induction j)
    case 0
    then show ?case by (simp add: W_def)
  next
    case (Suc j)
    then show ?case using step [of j] by auto
  qed
  define V where "V j = (if j < ?n then the (W j) else ?fin)" for j
  have WV: "W j = Some (V j)" if "j < ?n" for j
    using Wsome [OF that] that by (auto simp: V_def)
  have wpa: "home_wpa out ! j = Some (V (Suc j) - V j)" if j: "j < ?n" for j
  proof (cases "Suc j < ?n")
    case last: False
    then have jl: "j = ?n - 1" using j by simp
    have "\<not> isTimeout df ! j" using tolast jl by simp
    then have "home_wpa out ! j = cell_sub (Some ?fin) (home_wp out ! j)"
      using c(7) [OF j] jl last by auto
    then show ?thesis using wpW [OF j] WV [OF j] last by (simp add: V_def)
  next
    case nxt: True
    note st = step [OF nxt]
    show ?thesis
    proof (cases "isTimeout df ! j")
      case True
      then show ?thesis using c(7) [OF j] st WV [OF j] WV [OF nxt] by simp
    next
      case nto: False
      have cur: "home_wp df ! j = Some (V (Suc j))" using st nto WV [OF nxt] by simp
      show ?thesis
      proof (cases "0 < j \<and> isTimeout df ! (j - 1)")
        case True
        then show ?thesis
          using c(7) [OF j] nto nxt wpW [OF j] wpW [OF nxt] WV [OF j] WV [OF nxt] by simp
      next
        case npt: False
        show ?thesis
        proof (cases "j = 0")
          case True
          then show ?thesis
            using c(7) [OF j] nto nxt secs j WV [OF nxt] WV [OF j] by (simp add: W_def)
        next
          case False
          then obtain k where k: "j = Suc k" by (cases j) auto
          with npt have "\<not> isTimeout df ! k" by simp
          with step [of k] j k have "home_wp df ! k = W j" by simp
          then have prev: "home_wp df ! k = Some (V j)" using WV [OF j] by simp
          have "home_wpa out ! j = diff (home_wp df) ! j"
            using c(7) [OF j] nto npt nxt secs j False by auto
          then show ?thesis using diff_nth [of j "home_wp df"] j k cur prev by simp
        qed
      qed
    qed
  qed
  have Vn: "V ?n = ?fin" by (simp add: V_def)
  have V0: "V 0 = initwp" using npos by (simp add: V_def W_def)
  have wp0: "home_wp out ! 0 = Some initwp" using wpW [OF npos] by (simp add: W_def)
  have chain: "\<forall>j<?n. home_wpa out ! j =
                 cell_sub (if j + 1 < ?n then home_wp out ! (j + 1) else Some ?fin)
                          (home_wp out ! j)"
  proof (intro allI impI)
    fix j assume j: "j < ?n"
    show "home_wpa out ! j =
            cell_sub (if j + 1 < ?n then home_wp out ! (j + 1) else Some ?fin) (home_wp out ! j)"
    proof (cases "Suc j < ?n")
      case True
      then show ?thesis using wpa [OF j] wpW [OF j] wpW [OF True] WV [OF j] WV [OF True] by simp
    next
      case False
      then have "V (Suc j) = ?fin" by (simp add: V_def)
      with False show ?thesis using wpa [OF j] wpW [OF j] WV [OF j] by simp
    qed
  qed
  have "col_sum (home_wpa out) = Some (V ?n - V 0)"
    using c(3) wpa by (rule col_sum_telescope)
  then have sum: "col_sum (home_wpa out) = Some (?fin - initwp)" using Vn V0 by simp
  from run wp0 chain sum show ?thesis by blast
qed

theorem wpa_telescopes_witness:
  "\<exists>out. pbp 48 (Some ''BOS'') ''BOS''
           (game [50, 55, 60, 58, 62] [0, 1, 2, 3, 4] [False, False, False, False, False]) = Inr out \<and>
         home_wp out ! 0 = Some 48 \<and>
         home_wpa out ! 2 = cell_sub (home_wp out ! (2 + 1)) (home_wp out ! 2) \<and>
         col_sum (home_wpa out) = Some (100 - 48)"
proof -
  let ?G = "game [50, 55, 60, 58, 62] [0, 1, 2, 3, 4] [False, False, False, False, False]"
  have wf: "wf_frame ?G" by (simp add: wf_frame_def game_def)
  have n2: "2 \<le> length (home_wp ?G)" by (simp add: game_def)
  have secs: "\<forall>i<length (home_wp ?G). (secsElapsed ?G ! i = 0) = (i = 0)"
    by (simp add: game_def less_Suc_eq)
  have to0: "\<not> isTimeout ?G ! 0" by (simp add: game_def)
  have tolast: "\<not> isTimeout ?G ! (length (home_wp ?G) - 1)" by (simp add: game_def)
  have nan: "\<forall>i<length (home_wp ?G) - 1. home_wp ?G ! i = None \<longrightarrow> isTimeout ?G ! i"
    by (simp add: game_def less_Suc_eq)
  have flat: "\<forall>i<length (home_wp ?G). isTimeout ?G ! i \<longrightarrow>
                 home_wp ?G ! i = None \<or> home_wp ?G ! i = lagged ?G ! i"
    by (simp add: game_def less_Suc_eq)
  have fin: "finalWP (Some ''BOS'') ''BOS'' = 100" by (simp add: finalWP_def)
  have whole: "whole_game 48 ?G" by (simp add: whole_game_def whole_wp_def game_def)
  have l2: "2 < length (home_wp ?G)" by (simp add: game_def)
  have l3: "2 + 1 < length (home_wp ?G)" by (simp add: game_def)
  from wpa_telescopes [OF wf n2 secs to0 tolast nan flat, of 48 "Some ''BOS''" "''BOS''"]
  obtain out where run: "pbp 48 (Some ''BOS'') ''BOS'' ?G = Inr out"
    and wp0: "home_wp out ! 0 = Some 48"
    and chain: "\<forall>j<length (home_wp ?G). home_wpa out ! j =
                  cell_sub (if j + 1 < length (home_wp ?G) then home_wp out ! (j + 1)
                            else Some (finalWP (Some ''BOS'') ''BOS''))
                           (home_wp out ! j)"
    and sum: "whole_game 48 ?G \<longrightarrow>
                col_sum (home_wpa out) = Some (finalWP (Some ''BOS'') ''BOS'' - 48)"
    by blast
  note c2 = chain [rule_format, OF l2, unfolded if_P [OF l3]]
  from sum whole have s: "col_sum (home_wpa out) = Some (100 - 48)" unfolding fin by blast
  from run wp0 c2 s show ?thesis by blast
qed

text \<open>
  The claim as stated (for every game) fails on a three-row game whose rows 0 and 1
  both have zero elapsed seconds: the column sums to 54, not to \<open>100 - 48\<close>.
\<close>

theorem wpa_sum_counterexample:
  "pbp 48 (Some ''BOS'') ''BOS'' (game [50, 55, 60] [0, 0, 20] [False, False, False]) =
     Inr \<lparr>home_wp = [Some 48, Some 48, Some 55], secsElapsed = [0, 0, 20],
          isTimeout = [False, False, False], home_wpa = [Some 2, Some 7, Some 45]\<rparr> \<and>
   col_sum [Some 2, Some 7, Some 45] = Some 54 \<and>
   finalWP (Some ''BOS'') ''BOS'' - 48 = 52"
  by code_simp

section \<open>Properties of \<open>parsePlay\<close>\<close>

subsection \<open>The matcher\<close>

lemma upper_lower_no_digit:
  "(c, d) \<in> set (zip upper_chars lower_chars) \<Longrightarrow> \<not> is_digit c \<and> \<not> is_digit d"
  unfolding upper_chars_def lower_chars_def is_digit_def digit_chars_def by auto

lemma is_digit_lower: "is_digit (lower c) = is_digit c"
proof (cases "map_of (zip upper_chars lower_chars) c")
  case None
  then show ?thesis by (simp add: lower_def)
next
  case (Some d)
  then have "(c, d) \<in> set (zip upper_chars lower_chars)" by (rule map_of_SomeD)
  with upper_lower_no_digit have "\<not> is_digit c \<and> \<not> is_digit d" by blast
  with Some show ?thesis by (simp add: lower_def)
qed

lemma lower_digit:
  assumes "is_digit c"
  shows "lower c = c"
proof (cases "map_of (zip upper_chars lower_chars) c")
  case None
  then show ?thesis by (simp add: lower_def)
next
  case (Some d)
  then have "(c, d) \<in> set (zip upper_chars lower_chars)" by (rule map_of_SomeD)
  with upper_lower_no_digit assms show ?thesis by blast
qed

lemma lower_eq_digit: "is_digit d \<Longrightarrow> lower c = lower d \<Longrightarrow> c = d"
  using is_digit_lower [of c] is_digit_lower [of d] lower_digit [of c] lower_digit [of d] by simp

lemma ci_prefix_nth:
  "ci_prefix l s \<Longrightarrow> i < length l \<Longrightarrow> i < length s \<and> lower (l ! i) = lower (s ! i)"
proof (induction l s arbitrary: i rule: ci_prefix.induct)
  case (3 x xs c cs)
  then show ?case by (cases i) auto
qed simp_all

lemma ci_prefix_length: "ci_prefix l s \<Longrightarrow> length l \<le> length s"
  by (induction l s rule: ci_prefix.induct) simp_all

lemma ci_prefix_clash:
  "ci_prefix (x # xs) s \<Longrightarrow> lower y \<noteq> lower x \<Longrightarrow> \<not> ci_prefix (y # ys) s"
  by (cases s) auto

lemma in_rmatch_Lit:
  "(s', e') \<in> set (rmatch (Lit l) (s, e)) \<longleftrightarrow> ci_prefix l s \<and> s' = drop (length l) s \<and> e' = e"
  by auto

lemma in_rmatch_Rep:
  "(s', e') \<in> set (rmatch (Rep c lo hi g) (s, e)) \<longleftrightarrow>
     e' = e \<and> (\<exists>k. lo \<le> k \<and> k \<le> length (takeWhile (cc_mem c) s) \<and>
                   (case hi of None \<Rightarrow> True | Some h \<Rightarrow> k \<le> h) \<and> s' = drop k s)"
proof -
  let ?avail = "length (takeWhile (cc_mem c) s)"
  let ?m = "case hi of None \<Rightarrow> ?avail | Some h \<Rightarrow> min h ?avail"
  have "set (if g then rev [lo..<Suc ?m] else [lo..<Suc ?m]) = {k. lo \<le> k \<and> k \<le> ?m}"
    by auto
  then have "(s', e') \<in> set (rmatch (Rep c lo hi g) (s, e)) \<longleftrightarrow>
        (\<exists>k. lo \<le> k \<and> k \<le> ?m \<and> s' = drop k s \<and> e' = e)"
    by (auto simp: Let_def image_iff)
  also have "\<dots> \<longleftrightarrow> e' = e \<and> (\<exists>k. lo \<le> k \<and> k \<le> ?avail \<and>
                   (case hi of None \<Rightarrow> True | Some h \<Rightarrow> k \<le> h) \<and> s' = drop k s)"
    by (cases hi) auto
  finally show ?thesis .
qed

lemma in_rmatch_Seq:
  "x \<in> set (rmatch (Seq a b) se) \<longleftrightarrow> (\<exists>y\<in>set (rmatch a se). x \<in> set (rmatch b y))"
  by auto

lemma in_rmatch_Alt:
  "x \<in> set (rmatch (Alt a b) se) \<longleftrightarrow> x \<in> set (rmatch a se) \<or> x \<in> set (rmatch b se)"
  by auto

lemma in_rmatch_Opt:
  "x \<in> set (rmatch (Opt a) se) \<longleftrightarrow> x \<in> set (rmatch a se) \<or> x = se"
  by auto

lemma in_rmatch_Grp:
  "(s', e') \<in> set (rmatch (Grp n a) (s, e)) \<longleftrightarrow>
     (\<exists>e0. (s', e0) \<in> set (rmatch a (s, e)) \<and> e' = e0(n \<mapsto> take (length s - length s') s))"
  by (force simp: image_iff)

lemma rmatch_env_other:
  "(s', e') \<in> set (rmatch r (s, e)) \<Longrightarrow> k \<notin> set (groups r) \<Longrightarrow> e' k = e k"
proof (induction r arbitrary: s e s' e')
  case (Seq a b)
  then show ?case by (fastforce simp: in_rmatch_Seq)
next
  case (Grp n a)
  then show ?case by (auto simp: in_rmatch_Grp)
qed (auto simp: Let_def)

lemma captured_by_append:
  "captured_by (xs @ ys) v \<longleftrightarrow> captured_by xs v \<or> captured_by ys v"
  unfolding captured_by_def set_append bex_Un by (rule refl)

lemma captured_by_Nil: "\<not> captured_by [] v"
  by (simp add: captured_by_def)

lemma captured_byI:
  "(s2, e2) \<in> set (rmatch a (s1, e1)) \<Longrightarrow>
   captured_by (a # bodies) (Some (take (length s1 - length s2) s1))"
  unfolding captured_by_def by (intro bexI [of _ a] exI conjI) (assumption, rule refl, simp)

lemma captured_by_Cons2: "captured_by bodies v \<Longrightarrow> captured_by (a # bodies) v"
  unfolding captured_by_def by auto

lemma rmatch_capture:
  "(s', e') \<in> set (rmatch r (s, e)) \<Longrightarrow> e' k = e k \<or> captured_by (grp_bodies r k) (e' k)"
proof (induction r arbitrary: s e s' e')
  case (Lit l)
  then show ?case by (auto split: if_splits)
next
  case (Rep c lo hi g)
  then show ?case by (auto simp: Let_def)
next
  case (Seq a b)
  from Seq.prems obtain s1 e1 where
    a: "(s1, e1) \<in> set (rmatch a (s, e))" and b: "(s', e') \<in> set (rmatch b (s1, e1))"
    by (auto simp: in_rmatch_Seq)
  from Seq.IH(1) [OF a] Seq.IH(2) [OF b] show ?case
    by (auto simp: captured_by_append)
next
  case (Alt a b)
  from Alt.prems have "(s', e') \<in> set (rmatch a (s, e)) \<or> (s', e') \<in> set (rmatch b (s, e))"
    by simp
  then show ?case using Alt.IH(1) [of s' e' s e] Alt.IH(2) [of s' e' s e]
    by (auto simp: captured_by_append)
next
  case (Opt a)
  from Opt.prems have "(s', e') \<in> set (rmatch a (s, e)) \<or> e' = e" by auto
  then show ?case using Opt.IH [of s' e' s e] by auto
next
  case (Grp n a)
  from Grp.prems obtain e0 where
    a: "(s', e0) \<in> set (rmatch a (s, e))" and e': "e' = e0(n \<mapsto> take (length s - length s') s)"
    by (auto simp: in_rmatch_Grp)
  show ?case
  proof (cases "n = k")
    case True
    with captured_byI [OF a] e' show ?thesis by simp
  next
    case False
    with Grp.IH [OF a] e' show ?thesis by auto
  qed
qed

lemma rx_match_Some_in:
  "rx_match r s = Some m \<Longrightarrow> \<exists>s'. (s', m) \<in> set (rmatch r (s, Map.empty))"
  by (auto simp: rx_match_def split: list.splits)

lemma rx_match_None_iff: "rx_match r s = None \<longleftrightarrow> rmatch r (s, Map.empty) = []"
  by (auto simp: rx_match_def split: list.splits)

subsection \<open>The groups of each pattern, and dictionary lookups\<close>

lemma groups_shotRE:
  "groups shotRE = [''shooter'', ''isFGM'', ''isThree'', ''shotDist'', ''assister'', ''blocker'']"
  by code_simp

lemma groups_jumpRE: "groups jumpRE = [''awayJumper'', ''homeJumper'', ''gainsPos'']"
  by code_simp

lemma groups_rebRE: "groups rebRE = [''isOReb'', ''rebounder'']"
  by code_simp

lemma groups_shotFoulRE: "groups shotFoulRE = [''isBlockFoul'', ''fouler'', ''drewFoul'']"
  by code_simp

lemma groups_ftRE:
  "groups ftRE = [''ftShooter'', ''isFTM'', ''isTechFT'', ''isFlagFT'', ''isClearPathFT'',
                  ''ftNum'', ''numAtt'']"
  by code_simp

lemma groups_subRE: "groups subRE = [''subIn'', ''subOut'']"
  by code_simp

lemma groups_toRE:
  "groups toRE = [''turnoverBy'', ''shotClockViol'', ''isTravel'', ''isOffFoul'', ''stealType'',
                  ''stealer'']"
  by code_simp

lemma groups_offFoulRE: "groups offFoulRE = [''isCharge'', ''turnoverBy'', ''drewFoul'']"
  by code_simp

lemma groups_foulRE: "groups foulRE = [''isTakeFoul'', ''isBlockFoul'', ''fouler'', ''drewFoul'']"
  by code_simp

lemma groups_looseBallRE: "groups looseBallRE = [''fouler'', ''drewFoul'']"
  by code_simp

lemma groups_awayFromBallRE: "groups awayFromBallRE = [''fouler'', ''drewFoul'']"
  by code_simp

lemma groups_inboundRE: "groups inboundRE = [''fouler'', ''drewFoul'']"
  by code_simp

lemma groups_flagrantRE: "groups flagrantRE = [''flagType'', ''fouler'', ''drewFoul'']"
  by code_simp

lemma groups_clearPathRE: "groups clearPathRE = [''fouler'', ''drewFoul'']"
  by code_simp

lemma groups_timeoutRE: "groups timeoutRE = [''timeoutTeam'']"
  by code_simp

lemma groups_techRE: "groups techRE = [''fouler'']"
  by code_simp

lemma groups_def3TechRE: "groups def3TechRE = [''fouler'']"
  by code_simp

lemma groups_violRE: "groups violRE = [''violator'', ''violType'']"
  by code_simp

lemmas groups_simps =
  groups_shotRE groups_jumpRE groups_rebRE groups_shotFoulRE groups_ftRE groups_subRE
  groups_toRE groups_offFoulRE groups_foulRE groups_looseBallRE groups_awayFromBallRE
  groups_inboundRE groups_flagrantRE groups_clearPathRE groups_timeoutRE groups_techRE
  groups_def3TechRE groups_violRE

lemma ebind_Inr [simp]: "ebind (Inr v) f = f v"
  by (simp add: ebind_def)

lemma ebind_Inl [simp]: "ebind (Inl e) f = Inl e"
  by (simp add: ebind_def)

lemma map_add_groupdict:
  "(p ++ groupdict r m) k =
     (if k \<in> set (groups r) then Some (capv m k) else p k)"
  by (simp add: map_add_def groupdict_def)

lemma getitem_upd: "getitem (p(k' \<mapsto> v)) k = (if k = k' then Inr v else getitem p k)"
  by (simp add: getitem_def)

lemma getitem_groupdict:
  "getitem (p ++ groupdict r m) k =
     (if k \<in> set (groups r) then Inr (capv m k) else getitem p k)"
  by (simp add: getitem_def map_add_groupdict)

lemmas dict_simps = flag_eq_def Let_def getitem_upd getitem_groupdict groups_simps capv_def

subsection \<open>What each branch returns\<close>

lemma parse_fga_eq:
  assumes "case m ''shotDist'' of None \<Rightarrow> True | Some d \<Rightarrow> d \<noteq> [] \<and> list_all is_digit d"
  shows "parse_fga p m hm aw is_hm =
     Inr (Some ((p(''isFGA'' \<mapsto> VBool True) ++ groupdict shotRE m)
        (''shotDist'' \<mapsto> VInt (case m ''shotDist'' of None \<Rightarrow> 0 | Some d \<Rightarrow> digits_val d),
         ''isFGM'' \<mapsto> VBool (m ''isFGM'' = Some ''makes''),
         ''isThree'' \<mapsto> VBool (m ''isThree'' = Some ''3''),
         ''isAssist'' \<mapsto> VBool (m ''assister'' \<noteq> None),
         ''isBlock'' \<mapsto> VBool (m ''blocker'' \<noteq> None),
         ''team'' \<mapsto> (if is_hm then hm else aw),
         ''opp'' \<mapsto> (if is_hm then aw else hm))))"
  using assms
  by (auto simp: parse_fga_def dict_simps get_or_none_def map_add_groupdict notnull_def
        split: option.splits)

lemma parse_reb_eq:
  "parse_reb p m hm aw is_hm =
     Inr (Some ((p(''isReb'' \<mapsto> VBool True) ++ groupdict rebRE m)
        (''isOReb'' \<mapsto> VBool (m ''isOReb'' = Some ''Offensive''),
         ''isDReb'' \<mapsto> VBool (m ''isOReb'' \<noteq> Some ''Offensive''),
         ''rebTeam'' \<mapsto> (if is_hm then hm else aw),
         ''team'' \<mapsto> (if m ''isOReb'' = Some ''Offensive''
                        then (if is_hm then hm else aw) else (if is_hm then aw else hm)),
         ''opp'' \<mapsto> (if m ''isOReb'' \<noteq> Some ''Offensive''
                       then (if is_hm then hm else aw) else (if is_hm then aw else hm)))))"
  by (auto simp: parse_reb_def dict_simps split: option.splits)

lemma parse_shotFoul_eq:
  "parse_shotFoul p m hm aw is_hm =
     Inr (Some ((p(''isShotFoul'' \<mapsto> VBool True) ++ groupdict shotFoulRE m)
        (''isBlockFoul'' \<mapsto> VBool (m ''isBlockFoul'' = Some '' block''),
         ''team'' \<mapsto> (if is_hm then hm else aw),
         ''opp'' \<mapsto> (if is_hm then aw else hm))))"
  by (auto simp: parse_shotFoul_def dict_simps split: option.splits)

lemma parse_ft_eq:
  "parse_ft p m hm aw is_hm =
     Inr (Some ((p(''isFTA'' \<mapsto> VBool True) ++ groupdict ftRE m)
        (''isTechFT'' \<mapsto> VBool (m ''isTechFT'' = Some ''technical ''),
         ''isFlagFT'' \<mapsto> VBool (m ''isFlagFT'' = Some ''flagrant ''),
         ''isClearPathFT'' \<mapsto> VBool (m ''isClearPathFT'' = Some ''clear path ''),
         ''team'' \<mapsto> (if is_hm then hm else aw),
         ''opp'' \<mapsto> (if is_hm then aw else hm))))"
  by (auto simp: parse_ft_def dict_simps split: option.splits)

lemma parse_to_eq:
  "parse_to p m hm aw is_hm =
     (if \<exists>w. m ''isOffFoul'' = Some w \<and> w \<noteq> [] then Inr None
      else Inr (Some ((p(''isTO'' \<mapsto> VBool True) ++ groupdict toRE m)
        (''isTravel'' \<mapsto> VBool (m ''isTravel'' = Some ''traveling''),
         ''team'' \<mapsto> (if is_hm then hm else aw),
         ''opp'' \<mapsto> (if is_hm then aw else hm)))))"
  by (auto simp: parse_to_def dict_simps split: option.splits)

lemma parse_offFoul_eq:
  "parse_offFoul p m hm aw is_hm =
     Inr (Some ((p(''isFoul'' \<mapsto> VBool True, ''isOffFoul'' \<mapsto> VBool True, ''isTO'' \<mapsto> VBool True)
                  ++ groupdict offFoulRE m)
        (''isCharge'' \<mapsto> VBool (m ''isCharge'' = Some '' charge''),
         ''fouler'' \<mapsto> capv m ''turnoverBy'',
         ''team'' \<mapsto> (if is_hm then hm else aw),
         ''opp'' \<mapsto> (if is_hm then aw else hm),
         ''foulTeam'' \<mapsto> (if is_hm then hm else aw))))"
  by (auto simp: parse_offFoul_def dict_simps split: option.splits)

lemma parse_foul_eq:
  "parse_foul p m hm aw is_hm =
     Inr (Some ((p(''isFoul'' \<mapsto> VBool True) ++ groupdict foulRE m)
        (''isTakeFoul'' \<mapsto> VBool (m ''isTakeFoul'' = Some ''take ''),
         ''isBlockFoul'' \<mapsto> VBool (m ''isBlockFoul'' = Some ''block ''),
         ''team'' \<mapsto> (if is_hm then aw else hm),
         ''opp'' \<mapsto> (if is_hm then hm else aw),
         ''foulTeam'' \<mapsto> (if is_hm then hm else aw))))"
  by (auto simp: parse_foul_def dict_simps split: option.splits)

lemma parse_oppFoul_eq:
  "parse_oppFoul flag r p m hm aw is_hm =
     Inr (Some ((p(''isFoul'' \<mapsto> VBool True, flag \<mapsto> VBool True) ++ groupdict r m)
        (''team'' \<mapsto> (if is_hm then aw else hm),
         ''opp'' \<mapsto> (if is_hm then hm else aw),
         ''foulTeam'' \<mapsto> (if is_hm then hm else aw))))"
  by (simp add: parse_oppFoul_def Let_def getitem_upd)

lemma parse_timeout_eq:
  "parse_timeout teamIDs p m hm aw is_hm =
     Inr (Some ((p(''isTimeout'' \<mapsto> VBool True) ++ groupdict timeoutRE m)
        (''team'' \<mapsto> (if is_hm then hm else aw),
         ''opp'' \<mapsto> (if is_hm then aw else hm),
         ''timeoutTeam'' \<mapsto>
            (if m ''timeoutTeam'' = Some ''Official'' then VStr ''Official''
             else (case teamIDs (if is_hm then hm else aw) of
                     None \<Rightarrow> (if is_hm then hm else aw) | Some v \<Rightarrow> v)))))"
  by (auto simp: parse_timeout_def dict_simps split: option.splits)

subsection \<open>Patterns that cannot match\<close>

lemma rx_match_lit_first: "\<not> ci_prefix l s \<Longrightarrow> rx_match (Seq (Lit l) r) s = None"
  by (simp add: rx_match_def)

lemma rx_match_alt_first:
  "\<not> ci_prefix a s \<Longrightarrow> \<not> ci_prefix b s \<Longrightarrow> rx_match (Seq (Grp n (Alt (Lit a) (Lit b))) r) s = None"
  by (simp add: rx_match_def)

lemma rx_match_player_first:
  "rmatch playerRE (s, Map.empty) = [] \<Longrightarrow> rx_match (Seq (Grp n playerRE) r) s = None"
  by (simp add: rx_match_def)

lemma rx_match_lit_prefix: "rx_match (Seq (Lit l) r) s = Some m \<Longrightarrow> ci_prefix l s"
  using rx_match_lit_first [of l s r] by auto

lemma takeWhile_pos: "0 < length (takeWhile P xs) \<Longrightarrow> xs \<noteq> [] \<and> P (hd xs)"
  by (cases xs) (auto split: if_splits)

lemma playerRE_no_match:
  assumes nd: "\<And>i. i < 9 \<Longrightarrow> i < length s \<Longrightarrow> \<not> is_digit (s ! i)"
  shows "rmatch playerRE (s, e) = []"
proof (rule ccontr)
  assume "rmatch playerRE (s, e) \<noteq> []"
  then obtain s' e' where "(s', e') \<in> set (rmatch playerRE (s, e))"
    by (cases "rmatch playerRE (s, e)") auto
  then obtain k j where k: "k \<le> 7" and j: "2 \<le> j"
    and jl: "j \<le> length (takeWhile (cc_mem Digit) (drop k s))"
    by (auto simp del: rmatch.simps simp add: playerRE_def in_rmatch_Seq in_rmatch_Rep)
  from j jl have "0 < length (takeWhile (cc_mem Digit) (drop k s))" by arith
  from takeWhile_pos [OF this] have ne: "drop k s \<noteq> []" and d: "is_digit (hd (drop k s))"
    by simp_all
  from ne have kl: "k < length s" by simp
  then have "hd (drop k s) = s ! k" by (simp add: hd_drop_conv_nth)
  with d nd [of k] k kl show False by simp
qed

lemma ci_prefix_no_digit:
  assumes pre: "ci_prefix l s" and len: "9 \<le> length l"
    and nd: "list_all (\<lambda>c. \<not> is_digit (lower c)) (take 9 l)"
  shows "rmatch playerRE (s, e) = []"
proof (rule playerRE_no_match)
  fix i assume i: "i < (9::nat)" and "i < length s"
  with len have il: "i < length l" by simp
  from ci_prefix_nth [OF pre il] have eq: "lower (l ! i) = lower (s ! i)" by simp
  from nd i il have "\<not> is_digit (lower (l ! i))"
    by (simp add: list_all_length)
  with eq show "\<not> is_digit (s ! i)" by (simp add: is_digit_lower)
qed

subsection \<open>What a group can capture\<close>

lemma rep_capture:
  assumes "(s2, e2) \<in> set (rmatch (Rep c lo hi g) (s1, e1))"
  shows "lo \<le> length (take (length s1 - length s2) s1) \<and>
         list_all (cc_mem c) (take (length s1 - length s2) s1)"
proof -
  from assms obtain k where lo: "lo \<le> k" and k: "k \<le> length (takeWhile (cc_mem c) s1)"
    and s2: "s2 = drop k s1"
    by (auto simp del: rmatch.simps simp add: in_rmatch_Rep)
  have kl: "k \<le> length s1" using k length_takeWhile_le [of "cc_mem c" s1] by simp
  then have t: "take (length s1 - length s2) s1 = take k s1" using s2 by simp
  have "take k s1 = take k (takeWhile (cc_mem c) s1 @ dropWhile (cc_mem c) s1)" by simp
  also have "\<dots> = take k (takeWhile (cc_mem c) s1)" using k by (simp del: takeWhile_dropWhile_id)
  finally have "set (take k s1) \<subseteq> set (takeWhile (cc_mem c) s1)" by (metis set_take_subset)
  then have "list_all (cc_mem c) (take k s1)"
    by (auto simp: list_all_iff dest: set_takeWhileD)
  with t lo kl show ?thesis by simp
qed

lemma lit_capture:
  assumes "(s2, e2) \<in> set (rmatch (Lit l) (s1, e1))"
  shows "length (take (length s1 - length s2) s1) = length l"
proof -
  from assms have p: "ci_prefix l s1" and s2: "s2 = drop (length l) s1"
    by (auto split: if_splits)
  from ci_prefix_length [OF p] s2 show ?thesis by simp
qed

lemma cc_mem_Digit: "cc_mem Digit = is_digit"
  by (rule ext) simp

lemma shotDist_capture:
  assumes "rx_match shotRE s = Some m"
  shows "case m ''shotDist'' of None \<Rightarrow> True | Some d \<Rightarrow> d \<noteq> [] \<and> list_all is_digit d"
proof -
  from rx_match_Some_in [OF assms] obtain s' where
    "(s', m) \<in> set (rmatch shotRE (s, Map.empty))" ..
  from rmatch_capture [OF this, of "''shotDist''"]
  have "m ''shotDist'' = None \<or> captured_by (grp_bodies shotRE ''shotDist'') (m ''shotDist'')"
    by simp
  moreover have "grp_bodies shotRE ''shotDist'' = [Rep Digit 1 None True]" by code_simp
  ultimately have "m ''shotDist'' = None \<or> captured_by [Rep Digit 1 None True] (m ''shotDist'')"
    by simp
  then show ?thesis
  proof
    assume "m ''shotDist'' = None"
    then show ?thesis by simp
  next
    assume "captured_by [Rep Digit 1 None True] (m ''shotDist'')"
    then obtain s1 e1 s2 e2 where
      in1: "(s2, e2) \<in> set (rmatch (Rep Digit 1 None True) (s1, e1))"
      and v: "m ''shotDist'' = Some (take (length s1 - length s2) s1)"
      by (auto simp: captured_by_def)
    from rep_capture [OF in1] v show ?thesis by (auto simp: cc_mem_Digit)
  qed
qed

lemma isOffFoul_capture:
  assumes "rx_match toRE s = Some m" and "m ''isOffFoul'' = Some w"
  shows "w \<noteq> []"
proof -
  from rx_match_Some_in [OF assms(1)] obtain s' where
    "(s', m) \<in> set (rmatch toRE (s, Map.empty))" ..
  from rmatch_capture [OF this, of "''isOffFoul''"] assms(2)
  have "captured_by (grp_bodies toRE ''isOffFoul'') (m ''isOffFoul'')"
    by simp
  moreover have "grp_bodies toRE ''isOffFoul'' = [Lit ''offensive foul'']" by code_simp
  ultimately obtain s1 e1 s2 e2 where
      in1: "(s2, e2) \<in> set (rmatch (Lit ''offensive foul'') (s1, e1))"
      and v: "m ''isOffFoul'' = Some (take (length s1 - length s2) s1)"
    by (auto simp: captured_by_def)
  from lit_capture [OF in1] v assms(2) show ?thesis by auto
qed

subsection \<open>Descriptions that no earlier pattern matches\<close>

lemma skip_player_first:
  assumes pre: "ci_prefix l s" and len: "9 \<le> length l"
    and nd: "list_all (\<lambda>c. \<not> is_digit (lower c)) (take 9 l)"
  shows "rx_match shotRE s = None" and "rx_match ftRE s = None" and "rx_match subRE s = None"
  using ci_prefix_no_digit [OF pre len nd, of Map.empty]
  by (simp_all add: shotRE_def ftRE_def subRE_def rx_match_player_first)

lemma ci_prefix_clash_at:
  assumes "ci_prefix l1 s" and "ci_prefix l2 s" and "i < length l1" and "i < length l2"
  shows "lower (l1 ! i) = lower (l2 ! i)"
  using ci_prefix_nth [OF assms(1,3)] ci_prefix_nth [OF assms(2,4)] by simp

lemma skip_turnover:
  assumes pre: "ci_prefix ''Turnover by '' s"
  shows "rx_match shotRE s = None" and "rx_match jumpRE s = None" and "rx_match rebRE s = None"
    and "rx_match shotFoulRE s = None" and "rx_match ftRE s = None" and "rx_match subRE s = None"
proof -
  have len: "9 \<le> length ''Turnover by ''" by simp
  have nd: "list_all (\<lambda>c. \<not> is_digit (lower c)) (take 9 ''Turnover by '')" by code_simp
  note skip_player_first [OF pre len nd]
  then show "rx_match shotRE s = None" and "rx_match ftRE s = None" and "rx_match subRE s = None"
    by simp_all
  have j: "\<not> ci_prefix ''Jump ball: '' s"
    using pre by (rule ci_prefix_clash) code_simp
  have o: "\<not> ci_prefix ''Offensive'' s"
    using pre by (rule ci_prefix_clash) code_simp
  have d: "\<not> ci_prefix ''Defensive'' s"
    using pre by (rule ci_prefix_clash) code_simp
  have sh: "\<not> ci_prefix ''Shooting'' s"
    using pre by (rule ci_prefix_clash) code_simp
  show "rx_match jumpRE s = None" using j by (simp add: jumpRE_def rx_match_lit_first)
  show "rx_match rebRE s = None" using o d by (simp add: rebRE_def rx_match_alt_first)
  show "rx_match shotFoulRE s = None" using sh by (simp add: shotFoulRE_def rx_match_lit_first)
qed

lemma parsePlay_turnover_offFoul:
  assumes m: "rx_match toRE s = Some m" and f: "m ''isOffFoul'' \<noteq> None"
  shows "parsePlay teamIDs (VStr s) hm aw is_hm = Inr None"
proof -
  from m have pre: "ci_prefix ''Turnover by '' s"
    by (auto simp: toRE_def dest: rx_match_lit_prefix)
  from f obtain w where w: "m ''isOffFoul'' = Some w" by auto
  from isOffFoul_capture [OF m w] w have "\<exists>w. m ''isOffFoul'' = Some w \<and> w \<noteq> []" by simp
  then show ?thesis
    using m skip_turnover [OF pre]
    by (simp add: parsePlay_def try_rule_def parse_to_eq)
qed

lemma skip_jump:
  assumes pre: "ci_prefix ''Jump ball: '' s"
  shows "rx_match shotRE s = None"
proof -
  have len: "9 \<le> length ''Jump ball: ''" by simp
  have nd: "list_all (\<lambda>c. \<not> is_digit (lower c)) (take 9 ''Jump ball: '')" by code_simp
  from skip_player_first(1) [OF pre len nd] show ?thesis .
qed

lemma skip_personal:
  assumes pre: "ci_prefix ''Personal '' s"
  shows "rx_match shotRE s = None" and "rx_match jumpRE s = None" and "rx_match rebRE s = None"
    and "rx_match shotFoulRE s = None" and "rx_match ftRE s = None" and "rx_match subRE s = None"
    and "rx_match toRE s = None" and "rx_match offFoulRE s = None"
proof -
  have len: "9 \<le> length ''Personal ''" by simp
  have nd: "list_all (\<lambda>c. \<not> is_digit (lower c)) (take 9 ''Personal '')" by code_simp
  note skip_player_first [OF pre len nd]
  then show "rx_match shotRE s = None" and "rx_match ftRE s = None" and "rx_match subRE s = None"
    by simp_all
  have j: "\<not> ci_prefix ''Jump ball: '' s"
    using pre by (rule ci_prefix_clash) code_simp
  have o: "\<not> ci_prefix ''Offensive'' s"
    using pre by (rule ci_prefix_clash) code_simp
  have d: "\<not> ci_prefix ''Defensive'' s"
    using pre by (rule ci_prefix_clash) code_simp
  have sh: "\<not> ci_prefix ''Shooting'' s"
    using pre by (rule ci_prefix_clash) code_simp
  have t: "\<not> ci_prefix ''Turnover by '' s"
    using pre by (rule ci_prefix_clash) code_simp
  show "rx_match jumpRE s = None" using j by (simp add: jumpRE_def rx_match_lit_first)
  show "rx_match rebRE s = None" using o d by (simp add: rebRE_def rx_match_alt_first)
  show "rx_match shotFoulRE s = None" using sh by (simp add: shotFoulRE_def rx_match_lit_first)
  show "rx_match toRE s = None" using t by (simp add: toRE_def rx_match_lit_first)
  show "rx_match offFoulRE s = None" using o by (simp add: offFoulRE_def rx_match_lit_first)
qed

lemma parsePlay_personal_foul:
  assumes m: "rx_match foulRE s = Some m"
  shows "parsePlay teamIDs (VStr s) hm aw is_hm =
     Inr (Some (((base_dict (VStr s) hm aw is_hm)(''isFoul'' \<mapsto> VBool True) ++ groupdict foulRE m)
        (''isTakeFoul'' \<mapsto> VBool (m ''isTakeFoul'' = Some ''take ''),
         ''isBlockFoul'' \<mapsto> VBool (m ''isBlockFoul'' = Some ''block ''),
         ''team'' \<mapsto> (if is_hm then aw else hm),
         ''opp'' \<mapsto> (if is_hm then hm else aw),
         ''foulTeam'' \<mapsto> (if is_hm then hm else aw))))"
proof -
  from m have pre: "ci_prefix ''Personal '' s"
    by (auto simp: foulRE_def dest: rx_match_lit_prefix)
  show ?thesis
    using m skip_personal [OF pre]
    by (simp add: parsePlay_def try_rule_def parse_foul_eq)
qed

lemma parsePlay_fga:
  assumes m: "rx_match shotRE s = Some m"
  shows "parsePlay teamIDs (VStr s) hm aw is_hm =
     Inr (Some (((base_dict (VStr s) hm aw is_hm)(''isFGA'' \<mapsto> VBool True) ++ groupdict shotRE m)
        (''shotDist'' \<mapsto> VInt (case m ''shotDist'' of None \<Rightarrow> 0 | Some d \<Rightarrow> digits_val d),
         ''isFGM'' \<mapsto> VBool (m ''isFGM'' = Some ''makes''),
         ''isThree'' \<mapsto> VBool (m ''isThree'' = Some ''3''),
         ''isAssist'' \<mapsto> VBool (m ''assister'' \<noteq> None),
         ''isBlock'' \<mapsto> VBool (m ''blocker'' \<noteq> None),
         ''team'' \<mapsto> (if is_hm then hm else aw),
         ''opp'' \<mapsto> (if is_hm then aw else hm))))"
  using m parse_fga_eq [where m = m, OF shotDist_capture [OF m]]
  by (simp add: parsePlay_def try_rule_def)

lemma parsePlay_jump:
  assumes m: "rx_match jumpRE s = Some m"
  shows "parsePlay teamIDs (VStr s) hm aw is_hm =
     Inr (Some ((base_dict (VStr s) hm aw is_hm)(''isJumpBall'' \<mapsto> VBool True) ++ groupdict jumpRE m))"
proof -
  from m have pre: "ci_prefix ''Jump ball: '' s"
    by (auto simp: jumpRE_def dest: rx_match_lit_prefix)
  show ?thesis
    using m skip_jump [OF pre]
    by (simp add: parsePlay_def try_rule_def parse_jump_def)
qed

subsection \<open>Every branch keeps the four entries of lines 24 to 27\<close>

lemmas keeps_simps = keeps_def map_add_groupdict groups_simps

lemma keeps_fga: "parse_fga p m hm aw is_hm = Inr (Some q) \<Longrightarrow> keeps p q"
  by (auto simp: parse_fga_def dict_simps ebind_def keeps_simps split: sum.splits if_splits)

lemma keeps_jump: "parse_jump p m = Inr (Some q) \<Longrightarrow> keeps p q"
  by (auto simp: parse_jump_def keeps_simps)

lemma keeps_reb: "parse_reb p m hm aw is_hm = Inr (Some q) \<Longrightarrow> keeps p q"
  by (auto simp: parse_reb_eq keeps_simps)

lemma keeps_shotFoul: "parse_shotFoul p m hm aw is_hm = Inr (Some q) \<Longrightarrow> keeps p q"
  by (auto simp: parse_shotFoul_eq keeps_simps)

lemma keeps_ft: "parse_ft p m hm aw is_hm = Inr (Some q) \<Longrightarrow> keeps p q"
  by (auto simp: parse_ft_eq keeps_simps)

lemma keeps_sub: "parse_sub p m hm aw is_hm = Inr (Some q) \<Longrightarrow> keeps p q"
  by (auto simp: parse_sub_def Let_def keeps_simps)

lemma keeps_to: "parse_to p m hm aw is_hm = Inr (Some q) \<Longrightarrow> keeps p q"
  by (auto simp: parse_to_eq keeps_simps split: if_splits)

lemma keeps_offFoul: "parse_offFoul p m hm aw is_hm = Inr (Some q) \<Longrightarrow> keeps p q"
  by (auto simp: parse_offFoul_eq keeps_simps)

lemma keeps_foul: "parse_foul p m hm aw is_hm = Inr (Some q) \<Longrightarrow> keeps p q"
  by (auto simp: parse_foul_eq keeps_simps)

lemma keeps_looseBall: "parse_looseBall p m hm aw is_hm = Inr (Some q) \<Longrightarrow> keeps p q"
  by (auto simp: parse_looseBall_def Let_def keeps_simps)

lemma keeps_oppFoul:
  "flag \<notin> {''detail'', ''home'', ''away'', ''isHomePlay''} \<Longrightarrow>
   set (groups r) \<inter> {''detail'', ''home'', ''away'', ''isHomePlay''} = {} \<Longrightarrow>
   parse_oppFoul flag r p m hm aw is_hm = Inr (Some q) \<Longrightarrow> keeps p q"
  by (auto simp: parse_oppFoul_eq keeps_def map_add_groupdict)

lemma keeps_flagrant: "parse_flagrant p m hm aw is_hm = Inr (Some q) \<Longrightarrow> keeps p q"
  by (auto simp: parse_flagrant_def Let_def keeps_simps)

lemma keeps_timeout: "parse_timeout teamIDs p m hm aw is_hm = Inr (Some q) \<Longrightarrow> keeps p q"
  by (auto simp: parse_timeout_eq keeps_simps)

lemma keeps_tech: "parse_tech p m hm aw is_hm = Inr (Some q) \<Longrightarrow> keeps p q"
  by (auto simp: parse_tech_def Let_def keeps_simps)

lemma keeps_def3Tech: "parse_def3Tech p m hm aw is_hm = Inr (Some q) \<Longrightarrow> keeps p q"
  by (auto simp: parse_def3Tech_def Let_def keeps_simps)

lemma keeps_viol: "parse_viol p m hm aw is_hm = Inr (Some q) \<Longrightarrow> keeps p q"
  by (auto simp: parse_viol_def Let_def keeps_simps)

lemma try_rule_keeps:
  "try_rule r s f rest = Inr (Some q) \<Longrightarrow>
   (\<And>m. rx_match r s = Some m \<Longrightarrow> f m = Inr (Some q) \<Longrightarrow> keeps p q) \<Longrightarrow>
   (rest = Inr (Some q) \<Longrightarrow> keeps p q) \<Longrightarrow> keeps p q"
  by (cases "rx_match r s") (simp_all add: try_rule_def)

lemma parsePlay_keeps:
  assumes "parsePlay teamIDs (VStr s) hm aw is_hm = Inr (Some q)"
  shows "keeps (base_dict (VStr s) hm aw is_hm) q"
  using assms unfolding parsePlay_def val.case Let_def
  apply (elim try_rule_keeps)
                    apply (erule keeps_fga)
                   apply (erule keeps_jump)
                  apply (erule keeps_reb)
                 apply (erule keeps_shotFoul)
                apply (erule keeps_ft)
               apply (erule keeps_sub)
              apply (erule keeps_to)
             apply (erule keeps_offFoul)
            apply (erule keeps_foul)
           apply (erule keeps_looseBall)
          apply (erule keeps_oppFoul [rotated 2]; simp add: groups_simps)
         apply (erule keeps_oppFoul [rotated 2]; simp add: groups_simps)
        apply (erule keeps_flagrant)
       apply (erule keeps_oppFoul [rotated 2]; simp add: groups_simps)
      apply (erule keeps_timeout)
     apply (erule keeps_tech)
    apply (erule keeps_def3Tech)
   apply (erule keeps_viol)
  apply (simp add: keeps_def)
  done

subsection \<open>Every branch returns\<close>

lemma returned_Some: "returned s (Inr (Some q))"
  by (simp add: returned_def)

lemma try_rule_returned:
  "(\<And>m. rx_match r s = Some m \<Longrightarrow> returned s' (f m)) \<Longrightarrow> returned s' rest \<Longrightarrow>
   returned s' (try_rule r s f rest)"
  by (cases "rx_match r s") (simp_all add: try_rule_def)

lemma returned_fga:
  assumes "rx_match shotRE s = Some m"
  shows "returned s (parse_fga p m hm aw is_hm)"
  using parse_fga_eq [where m = m, OF shotDist_capture [OF assms]]
  by (simp add: returned_Some)

lemma returned_to: "rx_match toRE s = Some m \<Longrightarrow> returned s (parse_to p m hm aw is_hm)"
  by (auto simp: parse_to_eq returned_def)

lemma parsePlay_returned: "returned s (parsePlay teamIDs (VStr s) hm aw is_hm)"
  unfolding parsePlay_def val.case Let_def
  apply (intro try_rule_returned)
                    apply (erule returned_fga)
                   apply (simp add: parse_jump_def returned_Some)
                  apply (simp add: parse_reb_eq returned_Some)
                 apply (simp add: parse_shotFoul_eq returned_Some)
                apply (simp add: parse_ft_eq returned_Some)
               apply (simp add: parse_sub_def Let_def returned_Some)
              apply (erule returned_to)
             apply (simp add: parse_offFoul_eq returned_Some)
            apply (simp add: parse_foul_eq returned_Some)
           apply (simp add: parse_looseBall_def Let_def returned_Some)
          apply (simp add: parse_oppFoul_eq returned_Some)
         apply (simp add: parse_oppFoul_eq returned_Some)
        apply (simp add: parse_flagrant_def Let_def returned_Some)
       apply (simp add: parse_oppFoul_eq returned_Some)
      apply (simp add: parse_timeout_eq returned_Some)
     apply (simp add: parse_tech_def Let_def returned_Some)
    apply (simp add: parse_def3Tech_def Let_def returned_Some)
   apply (simp add: parse_viol_def Let_def returned_Some)
  apply (rule returned_Some)
  done

lemma parsePlay_no_match:
  assumes "\<forall>r\<in>set patterns. rx_match r s = None"
  shows "parsePlay teamIDs (VStr s) hm aw is_hm = Inr (Some (base_dict (VStr s) hm aw is_hm))"
  using assms by (simp add: patterns_def parsePlay_def try_rule_def)

lemma dom_base_dict:
  "dom (base_dict details hm aw is_hm) = {''detail'', ''home'', ''away'', ''isHomePlay''}"
  by (auto simp: base_dict_def)

lemma groupdict_apply:
  "groupdict r m k = (if k \<in> set (groups r) then Some (capv m k) else None)"
  by (simp add: groupdict_def)

subsection \<open>Descriptions that match the offensive-foul pattern\<close>

lemma offFoul_prefix:
  assumes "rx_match offFoulRE s = Some m"
  shows "ci_prefix ''Offensive'' s"
    and "ci_prefix '' charge'' (drop (length ''Offensive'') s) \<or> ci_prefix '' foul by '' (drop (length ''Offensive'') s)"
proof -
  from rx_match_Some_in [OF assms] obtain s' where
    "(s', m) \<in> set (rmatch offFoulRE (s, Map.empty))" ..
  then have "ci_prefix ''Offensive'' s \<and>
     (ci_prefix '' charge'' (drop (length ''Offensive'') s) \<or> ci_prefix '' foul by '' (drop (length ''Offensive'') s))"
    by (auto simp del: rmatch.simps
          simp add: offFoulRE_def in_rmatch_Seq in_rmatch_Opt in_rmatch_Grp in_rmatch_Lit)
  then show "ci_prefix ''Offensive'' s"
    and "ci_prefix '' charge'' (drop (length ''Offensive'') s) \<or> ci_prefix '' foul by '' (drop (length ''Offensive'') s)"
    by simp_all
qed

lemma skip_offensive:
  assumes m: "rx_match offFoulRE s = Some m"
  shows "rx_match shotRE s = None" and "rx_match jumpRE s = None" and "rx_match rebRE s = None"
    and "rx_match shotFoulRE s = None" and "rx_match ftRE s = None" and "rx_match subRE s = None"
    and "rx_match toRE s = None"
proof -
  note pre = offFoul_prefix(1) [OF m] and nxt = offFoul_prefix(2) [OF m]
  have len: "9 \<le> length ''Offensive''" by simp
  have nd: "list_all (\<lambda>c. \<not> is_digit (lower c)) (take 9 ''Offensive'')" by code_simp
  note skip_player_first [OF pre len nd]
  then show "rx_match shotRE s = None" and "rx_match ftRE s = None" and "rx_match subRE s = None"
    by simp_all
  have j: "\<not> ci_prefix ''Jump ball: '' s"
    using pre by (rule ci_prefix_clash) code_simp
  have d: "\<not> ci_prefix ''Defensive'' s"
    using pre by (rule ci_prefix_clash) code_simp
  have sh: "\<not> ci_prefix ''Shooting'' s"
    using pre by (rule ci_prefix_clash) code_simp
  have t: "\<not> ci_prefix ''Turnover by '' s"
    using pre by (rule ci_prefix_clash) code_simp
  show "rx_match jumpRE s = None" using j by (simp add: jumpRE_def rx_match_lit_first)
  show "rx_match shotFoulRE s = None" using sh by (simp add: shotFoulRE_def rx_match_lit_first)
  show "rx_match toRE s = None" using t by (simp add: toRE_def rx_match_lit_first)
  have r: "\<not> ci_prefix '' rebound by '' (drop (length ''Offensive'') s)"
  proof
    assume a: "ci_prefix '' rebound by '' (drop (length ''Offensive'') s)"
    from nxt show False
    proof
      assume "ci_prefix '' charge'' (drop (length ''Offensive'') s)"
      from ci_prefix_clash_at [OF a this, of 1] show False by (simp add: lower_def upper_chars_def lower_chars_def)
    next
      assume "ci_prefix '' foul by '' (drop (length ''Offensive'') s)"
      from ci_prefix_clash_at [OF a this, of 1] show False by (simp add: lower_def upper_chars_def lower_chars_def)
    qed
  qed
  have "rmatch rebRE (s, Map.empty) = []"
  proof (rule ccontr)
    assume "rmatch rebRE (s, Map.empty) \<noteq> []"
    then obtain s' e' where "(s', e') \<in> set (rmatch rebRE (s, Map.empty))"
      by (cases "rmatch rebRE (s, Map.empty)") auto
    then have "ci_prefix '' rebound by '' (drop (length ''Offensive'') s)"
      using d
      by (auto simp del: rmatch.simps
          simp add: rebRE_def in_rmatch_Seq in_rmatch_Alt in_rmatch_Grp in_rmatch_Lit)
    with r show False ..
  qed
  then show "rx_match rebRE s = None" by (simp add: rx_match_None_iff)
qed

lemma parsePlay_offFoul:
  assumes m: "rx_match offFoulRE s = Some m"
  shows "parsePlay teamIDs (VStr s) hm aw is_hm =
     Inr (Some (((base_dict (VStr s) hm aw is_hm)
                   (''isFoul'' \<mapsto> VBool True, ''isOffFoul'' \<mapsto> VBool True, ''isTO'' \<mapsto> VBool True)
                  ++ groupdict offFoulRE m)
        (''isCharge'' \<mapsto> VBool (m ''isCharge'' = Some '' charge''),
         ''fouler'' \<mapsto> capv m ''turnoverBy'',
         ''team'' \<mapsto> (if is_hm then hm else aw),
         ''opp'' \<mapsto> (if is_hm then aw else hm),
         ''foulTeam'' \<mapsto> (if is_hm then hm else aw))))"
  using m skip_offensive [OF m]
  by (simp add: parsePlay_def try_rule_def parse_offFoul_eq)

subsection \<open>Sequences of patterns, and the words of a field goal\<close>

lemma rmatch_Lit_Nil: "rmatch (Lit []) se = [se]"
  by (cases se) simp

lemma rmatch_seqs_Cons:
  "set (rmatch (seqs (r # rs)) se) = (\<Union>y\<in>set (rmatch r se). set (rmatch (seqs rs) y))"
  by (cases rs) (auto simp: rmatch_Lit_Nil)

lemma groups_seqs: "set (groups (seqs rs)) = (\<Union>r\<in>set rs. set (groups r))"
  by (induction rs rule: seqs.induct) auto

lemma rmatch_seqs_split:
  "(s', e') \<in> set (rmatch (seqs (xs @ r # ys)) (s, e)) \<Longrightarrow>
   \<exists>s1 e1 s2 e2. (s1, e1) \<in> set (rmatch (seqs xs) (s, e)) \<and>
      (s2, e2) \<in> set (rmatch r (s1, e1)) \<and> (s', e') \<in> set (rmatch (seqs ys) (s2, e2))"
proof (induction xs arbitrary: s e)
  case Nil
  have "(s, e) \<in> set (rmatch (seqs []) (s, e))" by simp
  with Nil show ?case
    by (auto simp: rmatch_seqs_Cons simp del: seqs.simps rmatch.simps)
next
  case (Cons x xs)
  from Cons.prems obtain s0 e0 where
    x: "(s0, e0) \<in> set (rmatch x (s, e))"
    and rest: "(s', e') \<in> set (rmatch (seqs (xs @ r # ys)) (s0, e0))"
    by (auto simp: rmatch_seqs_Cons simp del: seqs.simps rmatch.simps)
  from Cons.IH [OF rest] obtain s1 e1 s2 e2 where
    "(s1, e1) \<in> set (rmatch (seqs xs) (s0, e0))"
    "(s2, e2) \<in> set (rmatch r (s1, e1))" "(s', e') \<in> set (rmatch (seqs ys) (s2, e2))"
    by blast
  with x show ?case
    by (auto simp: rmatch_seqs_Cons simp del: seqs.simps rmatch.simps)
qed

lemma ci_prefix_take: "ci_prefix l s \<Longrightarrow> map lower (take (length l) s) = map lower l"
  by (induction l s rule: ci_prefix.induct) simp_all

lemma grp_alt_lit_capture:
  assumes "(s2, e2) \<in> set (rmatch (Grp k (Alt (Lit a) (Lit b))) (s1, e1))"
  shows "\<exists>w. e2 k = Some w \<and> (map lower w = map lower a \<or> map lower w = map lower b)"
proof -
  from assms obtain e0 where
    inner: "(s2, e0) \<in> set (rmatch (Alt (Lit a) (Lit b)) (s1, e1))"
    and e2: "e2 = e0(k \<mapsto> take (length s1 - length s2) s1)"
    by (auto simp: in_rmatch_Grp simp del: rmatch.simps)
  from inner have "(ci_prefix a s1 \<and> s2 = drop (length a) s1) \<or>
                   (ci_prefix b s1 \<and> s2 = drop (length b) s1)"
    by (auto split: if_splits)
  then have "map lower (take (length s1 - length s2) s1) = map lower a \<or>
             map lower (take (length s1 - length s2) s1) = map lower b"
  proof
    assume a: "ci_prefix a s1 \<and> s2 = drop (length a) s1"
    with ci_prefix_length [of a s1] have "length s1 - length s2 = length a" by simp
    with a ci_prefix_take [of a s1] show ?thesis by simp
  next
    assume b: "ci_prefix b s1 \<and> s2 = drop (length b) s1"
    with ci_prefix_length [of b s1] have "length s1 - length s2 = length b" by simp
    with b ci_prefix_take [of b s1] show ?thesis by simp
  qed
  with e2 show ?thesis by simp
qed

lemma shotRE_words:
  assumes "rx_match shotRE s = Some m"
  shows "\<exists>w. m ''isFGM'' = Some w \<and> (map lower w = ''makes'' \<or> map lower w = ''misses'')"
    and "m ''isThree'' = Some ''2'' \<or> m ''isThree'' = Some ''3''"
proof -
  from rx_match_Some_in [OF assms] obtain s' where
    mem: "(s', m) \<in> set (rmatch shotRE (s, Map.empty))" ..
  let ?g2 = "Grp ''isFGM'' (Alt (Lit ''makes'') (Lit ''misses''))"
  let ?g3 = "Grp ''isThree'' (Alt (Lit ''2'') (Lit ''3''))"
  let ?tail = "[Lit ''-pt shot'', distRE, Opt (Alt assistRE blockRE)]"
  have sh1: "shotRE = seqs ([Grp ''shooter'' playerRE, Lit '' ''] @ ?g2 # (Lit '' '' # ?g3 # ?tail))"
    by (simp add: shotRE_def)
  from rmatch_seqs_split [OF mem [unfolded sh1]] obtain s1 e1 s2 e2 where
    g2: "(s2, e2) \<in> set (rmatch ?g2 (s1, e1))"
    and r2: "(s', m) \<in> set (rmatch (seqs (Lit '' '' # ?g3 # ?tail)) (s2, e2))"
    by blast
  have "''isFGM'' \<notin> set (groups (seqs (Lit '' '' # ?g3 # ?tail)))"
    unfolding groups_seqs by (simp add: distRE_def assistRE_def blockRE_def playerRE_def)
  from rmatch_env_other [OF r2 this] grp_alt_lit_capture [OF g2]
  have "\<exists>w. m ''isFGM'' = Some w \<and>
          (map lower w = map lower ''makes'' \<or> map lower w = map lower ''misses'')"
    by simp
  moreover have "map lower ''makes'' = ''makes''" by code_simp
  moreover have "map lower ''misses'' = ''misses''" by code_simp
  ultimately show "\<exists>w. m ''isFGM'' = Some w \<and> (map lower w = ''makes'' \<or> map lower w = ''misses'')"
    by simp
  have sh2: "seqs (Lit '' '' # ?g3 # ?tail) = seqs ([Lit '' ''] @ ?g3 # ?tail)" by simp
  from rmatch_seqs_split [OF r2 [unfolded sh2]] obtain s3 e3 s4 e4 where
    g3: "(s4, e4) \<in> set (rmatch ?g3 (s3, e3))"
    and r3: "(s', m) \<in> set (rmatch (seqs ?tail) (s4, e4))"
    by blast
  have "''isThree'' \<notin> set (groups (seqs ?tail))"
    unfolding groups_seqs by (simp add: distRE_def assistRE_def blockRE_def playerRE_def)
  from rmatch_env_other [OF r3 this] grp_alt_lit_capture [OF g3]
  obtain w where w: "m ''isThree'' = Some w"
    and c: "map lower w = map lower ''2'' \<or> map lower w = map lower ''3''"
    by auto
  have d: "is_digit (CHR ''2'')" "is_digit (CHR ''3'')" by (simp_all add: is_digit_def digit_chars_def)
  have one: "map lower w = [lower x] \<Longrightarrow> is_digit x \<Longrightarrow> w = [x]" for x
  proof -
    assume a: "map lower w = [lower x]" and dx: "is_digit x"
    then obtain c where w1: "w = [c]" and "lower c = lower x" by (cases w) auto
    with lower_eq_digit [OF dx] show ?thesis by simp
  qed
  from c one [of "CHR ''2''"] one [of "CHR ''3''"] d have "w = ''2'' \<or> w = ''3''"
    by auto
  with w show "m ''isThree'' = Some ''2'' \<or> m ''isThree'' = Some ''3''" by auto
qed

subsection \<open>A turnover whose reason is an offensive foul\<close>

text \<open>
  Claim C1, as the code has it. A description that matches the turnover pattern with
  the offensive-foul reason, such as \<open>Turnover by X (offensive foul)\<close>, makes
  \<open>parsePlay\<close> return \<open>None\<close>: no record at all, neither a turnover nor an offensive
  foul. A record with \<open>isOffFoul\<close> set and \<open>team\<close>, \<open>opp\<close>, \<open>foulTeam\<close> resolved (the
  fouling team is the row's side) is what a description matching the offensive-foul
  pattern itself, \<open>Offensive foul by X\<close>, gives.
\<close>

theorem turnover_offensive_foul_is_dropped:
  "(rx_match toRE s = Some m \<and> m ''isOffFoul'' \<noteq> None \<longrightarrow>
      parsePlay teamIDs (VStr s) hm aw is_hm = Inr None) \<and>
   (rx_match offFoulRE s' = Some m' \<longrightarrow>
      (\<exists>p. parsePlay teamIDs (VStr s') hm aw is_hm = Inr (Some p) \<and>
           p ''isOffFoul'' = Some (VBool True) \<and> p ''isTO'' = Some (VBool True) \<and>
           p ''team'' = Some (if is_hm then hm else aw) \<and>
           p ''opp'' = Some (if is_hm then aw else hm) \<and>
           p ''foulTeam'' = p ''team''))"
proof (intro conjI impI)
  assume "rx_match toRE s = Some m \<and> m ''isOffFoul'' \<noteq> None"
  then show "parsePlay teamIDs (VStr s) hm aw is_hm = Inr None"
    using parsePlay_turnover_offFoul by blast
next
  assume "rx_match offFoulRE s' = Some m'"
  from parsePlay_offFoul [OF this, of teamIDs hm aw is_hm]
  show "\<exists>p. parsePlay teamIDs (VStr s') hm aw is_hm = Inr (Some p) \<and>
           p ''isOffFoul'' = Some (VBool True) \<and> p ''isTO'' = Some (VBool True) \<and>
           p ''team'' = Some (if is_hm then hm else aw) \<and>
           p ''opp'' = Some (if is_hm then aw else hm) \<and>
           p ''foulTeam'' = p ''team''"
    by (simp add: map_add_groupdict groups_offFoulRE)
qed

theorem turnover_offensive_foul_is_dropped_witness:
  "parsePlay Map.empty (VStr ''Turnover by Jones14 (Offensive Foul)'') (VStr ''BOS'') (VStr ''LAL'') True
     = Inr None \<and>
   (\<exists>p. parsePlay Map.empty (VStr ''Offensive foul by Smith32'') (VStr ''BOS'') (VStr ''LAL'') True
          = Inr (Some p) \<and>
        p ''isOffFoul'' = Some (VBool True) \<and> p ''isTO'' = Some (VBool True) \<and>
        p ''team'' = Some (VStr ''BOS'') \<and> p ''opp'' = Some (VStr ''LAL'') \<and>
        p ''foulTeam'' = p ''team'')"
proof -
  have "case rx_match toRE ''Turnover by Jones14 (Offensive Foul)'' of
          None \<Rightarrow> False | Some m \<Rightarrow> m ''isOffFoul'' \<noteq> None"
    by code_simp
  then obtain m where m: "rx_match toRE ''Turnover by Jones14 (Offensive Foul)'' = Some m \<and>
      m ''isOffFoul'' \<noteq> None"
    by (auto split: option.splits)
  have "\<not> Option.is_none (rx_match offFoulRE ''Offensive foul by Smith32'')"
    by code_simp
  then obtain m' where m': "rx_match offFoulRE ''Offensive foul by Smith32'' = Some m'"
    by (auto simp: Option.is_none_def)
  from turnover_offensive_foul_is_dropped
         [of "''Turnover by Jones14 (Offensive Foul)''" m Map.empty "VStr ''BOS''" "VStr ''LAL''" True
             "''Offensive foul by Smith32''" m'] m m'
  show ?thesis by simp
qed

text \<open>The claim as stated fails on its own example: the result is \<open>None\<close>.\<close>

theorem turnover_offensive_foul_counterexample:
  "parsePlay Map.empty (VStr ''Turnover by Smith32 (offensive foul)'') (VStr ''BOS'') (VStr ''LAL'') True
     = Inr None"
proof -
  have "case parsePlay Map.empty (VStr ''Turnover by Smith32 (offensive foul)'')
               (VStr ''BOS'') (VStr ''LAL'') True of
          Inr None \<Rightarrow> True | _ \<Rightarrow> False"
    by code_simp
  then show ?thesis by (auto split: sum.splits option.splits)
qed

subsection \<open>No exception\<close>

text \<open>
  Claim C6, as the code has it. For every string description, any team values and
  either flag, \<open>parsePlay\<close> raises no exception. It returns a dictionary, except that
  it returns \<open>None\<close> exactly when the turnover pattern matches with its offensive-foul
  reason. When no pattern matches, the dictionary returned is the one of lines 23 to
  27: its keys are \<open>detail\<close>, \<open>home\<close>, \<open>away\<close> and \<open>isHomePlay\<close> and nothing else.
\<close>

theorem parsePlay_never_raises:
  "\<exists>r. parsePlay teamIDs (VStr s) hm aw is_hm = Inr r \<and>
        (r = None \<longleftrightarrow> (\<exists>m. rx_match toRE s = Some m \<and> m ''isOffFoul'' \<noteq> None)) \<and>
        ((\<forall>x\<in>set patterns. rx_match x s = None) \<longrightarrow>
           r = Some (base_dict (VStr s) hm aw is_hm)) \<and>
        dom (base_dict (VStr s) hm aw is_hm) = {''detail'', ''home'', ''away'', ''isHomePlay''}"
proof -
  from parsePlay_returned [of s teamIDs hm aw is_hm] obtain r where
    r: "parsePlay teamIDs (VStr s) hm aw is_hm = Inr r"
    and n: "r = None \<longrightarrow> (\<exists>m. rx_match toRE s = Some m \<and> m ''isOffFoul'' \<noteq> None)"
    by (auto simp: returned_def)
  have "(\<exists>m. rx_match toRE s = Some m \<and> m ''isOffFoul'' \<noteq> None) \<longrightarrow> r = None"
    using parsePlay_turnover_offFoul [of s _ teamIDs hm aw is_hm] r by auto
  moreover have "(\<forall>x\<in>set patterns. rx_match x s = None) \<longrightarrow>
           r = Some (base_dict (VStr s) hm aw is_hm)"
    using parsePlay_no_match [of s teamIDs hm aw is_hm] r by auto
  ultimately show ?thesis using r n dom_base_dict by blast
qed

theorem parsePlay_never_raises_witness:
  "parsePlay Map.empty (VStr ''End of 1st quarter'') (VStr ''BOS'') (VStr ''LAL'') True =
     Inr (Some (base_dict (VStr ''End of 1st quarter'') (VStr ''BOS'') (VStr ''LAL'') True))"
proof -
  have "list_all (\<lambda>x. Option.is_none (rx_match x ''End of 1st quarter'')) patterns"
    by code_simp
  then have none: "\<forall>x\<in>set patterns. rx_match x ''End of 1st quarter'' = None"
    by (simp add: list_all_iff Option.is_none_def)
  from parsePlay_never_raises
         [of Map.empty "''End of 1st quarter''" "VStr ''BOS''" "VStr ''LAL''" True] none
  show ?thesis by auto
qed

text \<open>The claim as stated fails on a team turnover by offensive foul: the result is \<open>None\<close>.\<close>

theorem parsePlay_returns_None_counterexample:
  "parsePlay Map.empty (VStr ''Turnover by Team (offensive foul)'') (VStr ''BOS'') (VStr ''LAL'') False
     = Inr None"
proof -
  have "case parsePlay Map.empty (VStr ''Turnover by Team (offensive foul)'')
               (VStr ''BOS'') (VStr ''LAL'') False of
          Inr None \<Rightarrow> True | _ \<Rightarrow> False"
    by code_simp
  then show ?thesis by (auto split: sum.splits option.splits)
qed

subsection \<open>Personal fouls\<close>

text \<open>
  Claim C7, as the code has it. For every description matching the personal-foul
  pattern, \<open>parsePlay\<close> returns a record with \<open>isFoul\<close> set and the fouler captured,
  \<open>team\<close> is the side opposite the row's side, \<open>opp\<close> is the row's side, and
  \<open>foulTeam\<close> equals \<open>opp\<close>, not \<open>team\<close>. For the description of the claim, with home
  BOS, away LAL and a home row, the fouler is Smith32, \<open>team\<close> is LAL and \<open>foulTeam\<close>
  is BOS.
\<close>

theorem personal_foul_team:
  assumes "rx_match foulRE s = Some m"
  shows "\<exists>p. parsePlay teamIDs (VStr s) hm aw is_hm = Inr (Some p) \<and>
           p ''isFoul'' = Some (VBool True) \<and>
           p ''fouler'' = Some (capv m ''fouler'') \<and>
           p ''team'' = Some (if is_hm then aw else hm) \<and>
           p ''opp'' = Some (if is_hm then hm else aw) \<and>
           p ''foulTeam'' = p ''opp''"
  unfolding parsePlay_personal_foul [OF assms]
  by (simp add: map_add_groupdict groups_foulRE)

theorem personal_foul_team_witness:
  "\<exists>p. parsePlay Map.empty (VStr ''Personal foul by Smith32 (drawn by Jones14)'')
           (VStr ''BOS'') (VStr ''LAL'') True = Inr (Some p) \<and>
        p ''isFoul'' = Some (VBool True) \<and> p ''fouler'' = Some (VStr ''Smith32'') \<and>
        p ''team'' = Some (VStr ''LAL'') \<and> p ''opp'' = Some (VStr ''BOS'') \<and>
        p ''foulTeam'' = p ''opp''"
proof -
  have "case rx_match foulRE ''Personal foul by Smith32 (drawn by Jones14)'' of
          None \<Rightarrow> False | Some m \<Rightarrow> capv m ''fouler'' = VStr ''Smith32''"
    by code_simp
  then obtain m where m: "rx_match foulRE ''Personal foul by Smith32 (drawn by Jones14)'' = Some m"
    and f: "capv m ''fouler'' = VStr ''Smith32''"
    by (auto split: option.splits)
  from personal_foul_team [OF m, of Map.empty "VStr ''BOS''" "VStr ''LAL''" True] f
  show ?thesis by simp
qed

text \<open>
  The claim as stated fails on its own example: \<open>foulTeam\<close> is BOS while \<open>team\<close> is LAL.
\<close>

theorem personal_foul_foulTeam_counterexample:
  "field (parsePlay Map.empty (VStr ''Personal foul by Smith32 (drawn by Jones14)'')
            (VStr ''BOS'') (VStr ''LAL'') True) ''team'' = Inr (Some (Some (VStr ''LAL''))) \<and>
   field (parsePlay Map.empty (VStr ''Personal foul by Smith32 (drawn by Jones14)'')
            (VStr ''BOS'') (VStr ''LAL'') True) ''foulTeam'' = Inr (Some (Some (VStr ''BOS'')))"
  by code_simp

subsection \<open>Field goal attempts\<close>

text \<open>
  Claim C8. For every description matching the field-goal pattern, the word after the
  shooter is \<open>makes\<close> or \<open>misses\<close> up to the case of its letters and the points are
  \<open>2\<close> or \<open>3\<close>; \<open>parsePlay\<close> returns a record whose \<open>isFGM\<close> is true exactly when that
  word is the string \<open>makes\<close>, whose \<open>isThree\<close> is true exactly when the points are
  \<open>3\<close>, and whose \<open>shotDist\<close> is an integer: the value of the captured digits, and 0
  when the distance group took no part in the match (the \<open>at rim\<close> form). For the
  description of the claim the record has \<open>isFGM\<close> true, \<open>isThree\<close> false, \<open>shotDist\<close>
  15, \<open>team\<close> BOS and \<open>opp\<close> LAL.
\<close>

theorem field_goal_fields:
  assumes "rx_match shotRE s = Some m"
  shows "\<exists>p w t. parsePlay teamIDs (VStr s) hm aw is_hm = Inr (Some p) \<and>
           m ''isFGM'' = Some w \<and> (map lower w = ''makes'' \<or> map lower w = ''misses'') \<and>
           m ''isThree'' = Some t \<and> (t = ''2'' \<or> t = ''3'') \<and>
           p ''isFGA'' = Some (VBool True) \<and>
           p ''isFGM'' = Some (VBool (w = ''makes'')) \<and>
           p ''isThree'' = Some (VBool (t = ''3'')) \<and>
           p ''shotDist'' = Some (VInt (case m ''shotDist'' of None \<Rightarrow> 0 | Some d \<Rightarrow> digits_val d)) \<and>
           p ''team'' = Some (if is_hm then hm else aw) \<and>
           p ''opp'' = Some (if is_hm then aw else hm)"
proof -
  from shotRE_words [OF assms] obtain w t where
    w: "m ''isFGM'' = Some w" "map lower w = ''makes'' \<or> map lower w = ''misses''"
    and t: "m ''isThree'' = Some t" "t = ''2'' \<or> t = ''3''"
    by auto
  let ?p = "((base_dict (VStr s) hm aw is_hm)(''isFGA'' \<mapsto> VBool True) ++ groupdict shotRE m)
        (''shotDist'' \<mapsto> VInt (case m ''shotDist'' of None \<Rightarrow> 0 | Some d \<Rightarrow> digits_val d),
         ''isFGM'' \<mapsto> VBool (m ''isFGM'' = Some ''makes''),
         ''isThree'' \<mapsto> VBool (m ''isThree'' = Some ''3''),
         ''isAssist'' \<mapsto> VBool (m ''assister'' \<noteq> None),
         ''isBlock'' \<mapsto> VBool (m ''blocker'' \<noteq> None),
         ''team'' \<mapsto> (if is_hm then hm else aw),
         ''opp'' \<mapsto> (if is_hm then aw else hm))"
  have run: "parsePlay teamIDs (VStr s) hm aw is_hm = Inr (Some ?p)"
    by (rule parsePlay_fga [OF assms])
  show ?thesis
    using run w t
    by (intro exI [of _ ?p] exI [of _ w] exI [of _ t])
       (simp add: map_add_groupdict groups_shotRE)
qed

theorem field_goal_fields_witness:
  "\<exists>p. parsePlay Map.empty (VStr ''Bob23 makes 2-pt shot from 15 ft'')
           (VStr ''BOS'') (VStr ''LAL'') True = Inr (Some p) \<and>
        p ''isFGA'' = Some (VBool True) \<and> p ''isFGM'' = Some (VBool True) \<and>
        p ''isThree'' = Some (VBool False) \<and> p ''shotDist'' = Some (VInt 15) \<and>
        p ''team'' = Some (VStr ''BOS'') \<and> p ''opp'' = Some (VStr ''LAL'')"
proof -
  have "case rx_match shotRE ''Bob23 makes 2-pt shot from 15 ft'' of
          None \<Rightarrow> False
        | Some m \<Rightarrow> m ''isFGM'' = Some ''makes'' \<and> m ''isThree'' = Some ''2'' \<and>
                     m ''shotDist'' = Some ''15''"
    by code_simp
  then obtain m where m: "rx_match shotRE ''Bob23 makes 2-pt shot from 15 ft'' = Some m"
    and f: "m ''isFGM'' = Some ''makes''" "m ''isThree'' = Some ''2''" "m ''shotDist'' = Some ''15''"
    by (auto split: option.splits)
  have d: "digits_val ''15'' = 15" by code_simp
  from field_goal_fields [OF m, of Map.empty "VStr ''BOS''" "VStr ''LAL''" True] f d
  show ?thesis by auto
qed

subsection \<open>The fields every record carries\<close>

text \<open>
  Claim C9. Every record \<open>parsePlay\<close> returns, whatever branch built it, holds the
  description under \<open>detail\<close>, the two team values under \<open>home\<close> and \<open>away\<close>, and the
  flag under \<open>isHomePlay\<close>, as they were passed in. When the description matches the
  jump-ball pattern the record has \<open>isJumpBall\<close> set and no \<open>team\<close> and no \<open>opp\<close> key.
\<close>

theorem record_carries_inputs:
  assumes "parsePlay teamIDs details hm aw is_hm = Inr (Some p)"
  shows "p ''detail'' = Some details \<and> p ''home'' = Some hm \<and> p ''away'' = Some aw \<and>
         p ''isHomePlay'' = Some (VBool is_hm) \<and>
         (\<forall>s m. details = VStr s \<and> rx_match jumpRE s = Some m \<longrightarrow>
            p ''isJumpBall'' = Some (VBool True) \<and> p ''team'' = None \<and> p ''opp'' = None)"
proof -
  from assms obtain s where d: "details = VStr s"
    by (cases details) (simp_all add: parsePlay_def)
  from parsePlay_keeps [of teamIDs s hm aw is_hm p] assms d
  have k: "p ''detail'' = Some details \<and> p ''home'' = Some hm \<and> p ''away'' = Some aw \<and>
         p ''isHomePlay'' = Some (VBool is_hm)"
    by (simp add: keeps_def base_dict_def)
  have "p ''isJumpBall'' = Some (VBool True) \<and> p ''team'' = None \<and> p ''opp'' = None"
    if "rx_match jumpRE s = Some m" for m
    using parsePlay_jump [OF that, of teamIDs hm aw is_hm] assms d
    by (auto simp: map_add_groupdict groupdict_apply groups_jumpRE base_dict_def)
  with k d show ?thesis by blast
qed

theorem record_carries_inputs_witness:
  "\<exists>p. parsePlay Map.empty (VStr ''Jump ball: Smith32 vs. Jones14 (Smith32 gains possession)'')
           (VStr ''BOS'') (VStr ''LAL'') True = Inr (Some p) \<and>
        p ''detail'' = Some (VStr ''Jump ball: Smith32 vs. Jones14 (Smith32 gains possession)'') \<and>
        p ''home'' = Some (VStr ''BOS'') \<and> p ''away'' = Some (VStr ''LAL'') \<and>
        p ''isHomePlay'' = Some (VBool True) \<and> p ''isJumpBall'' = Some (VBool True) \<and>
        p ''team'' = None \<and> p ''opp'' = None"
proof -
  let ?s = "''Jump ball: Smith32 vs. Jones14 (Smith32 gains possession)''"
  have "case parsePlay Map.empty (VStr ?s) (VStr ''BOS'') (VStr ''LAL'') True of
          Inr (Some p) \<Rightarrow> True | _ \<Rightarrow> False"
    by code_simp
  then obtain p where p: "parsePlay Map.empty (VStr ?s) (VStr ''BOS'') (VStr ''LAL'') True = Inr (Some p)"
    by (auto split: sum.splits option.splits)
  have "\<not> Option.is_none (rx_match jumpRE ?s)" by code_simp
  then obtain m where m: "rx_match jumpRE ?s = Some m"
    by (auto simp: Option.is_none_def)
  from record_carries_inputs [OF p] m p show ?thesis by blast
qed

subsection \<open>A description that is not a string\<close>

text \<open>
  Claim C10. When the description is not a string (a NaN, say), \<open>parsePlay\<close> returns
  \<open>None\<close> and no record.
\<close>

theorem non_string_gives_None:
  assumes "\<forall>s. details \<noteq> VStr s"
  shows "parsePlay teamIDs details hm aw is_hm = Inr None"
  using assms by (cases details) (simp_all add: parsePlay_def)

theorem non_string_gives_None_witness:
  "parsePlay Map.empty VNaN (VStr ''BOS'') (VStr ''LAL'') True = Inr None"
proof -
  have "\<forall>s. VNaN \<noteq> VStr s" by simp
  from non_string_gives_None [OF this] show ?thesis .
qed

end
